theory Spec2Isabelle
  imports Main "HOL-Library.Multiset"
begin

section \<open>The data model of \<open>PandocCodeDecorator\<close>\<close>

text \<open>
  The class of \<^verbatim>\<open>src/main.js\<close> is modelled. (The repository holds two other copies of the
  class: one has \<^verbatim>\<open>decorateSpan\<close> written out like \<^verbatim>\<open>clearSpan\<close> instead of the generator
  and is otherwise the same; the other has no lines and columns, and its \<^verbatim>\<open>locateEntry\<close>
  returns \<^verbatim>\<open>undefined\<close> whenever the loop ends.) The class keeps, for one rendered code
  block, the array
  \<^verbatim>\<open>_elementEntryPoints\<close>: one entry per \<^verbatim>\<open>span\<close> of the block, with the offset
  of its first character, its line, its column and the DOM node. Every entry owns a node
  of its own (the builder pushes one entry per child, a split creates a fresh span), so a
  node is embedded in its entry: its \<^verbatim>\<open>textContent\<close> (a list of code units) and the
  token set of its \<^verbatim>\<open>classList\<close>. Mutation of the array and of the nodes is explicit state
  passing.

  Offsets handed in by callers are integers or the JavaScript value \<^verbatim>\<open>Infinity\<close>, which
  callers use for "through the end of the document". Offsets stored in entries are always
  integers. The line of an entry is whatever \<^verbatim>\<open>Number\<close> returned for the line's
  identifier; the class never computes with it, so its type is a parameter.
\<close>

text \<open>The exceptions: the TypeError of a read through \<^verbatim>\<open>undefined\<close>, and the two
  DOMExceptions of \<^verbatim>\<open>DOMTokenList\<close>.\<close>

datatype error = TypeError | SyntaxError | InvalidCharacterError

datatype jsnum = Fin int | Infinity

text \<open>
  The tokens of a \<^verbatim>\<open>DOMTokenList\<close>. The token set of an element is its \<^verbatim>\<open>class\<close>
  attribute split on ASCII white space (tab, line feed, form feed, carriage return, space),
  so a token in a class list is never empty and holds no ASCII white space; the type
  \<open>token\<close> has exactly these strings. The strings that callers pass to
  \<^verbatim>\<open>classList.add\<close> and \<^verbatim>\<open>classList.remove\<close> are arbitrary and are validated there.
\<close>

definition isAsciiWhitespace :: "char \<Rightarrow> bool" where
  "isAsciiWhitespace c = (c \<in> set [CHR 0x09, CHR 0x0A, CHR 0x0C, CHR 0x0D, CHR 0x20])"

definition validToken :: "string \<Rightarrow> bool" where
  "validToken c = (c \<noteq> [] \<and> \<not> list_ex isAsciiWhitespace c)"

typedef token = "{c. validToken c}"
  by (rule exI[of _ "''x''"]) (simp add: validToken_def isAsciiWhitespace_def)

record node =
  textContent :: string
  tokenSet :: "token list"

text \<open>\<^verbatim>\<open>node.classList\<close> read as a sequence of strings, as iteration yields it.\<close>

definition classList :: "node \<Rightarrow> string list" where
  "classList n = map Rep_token (tokenSet n)"

record 'n entryPoint =
  offset :: int
  line :: 'n
  column :: int
  node :: node

text \<open>The object \<^verbatim>\<open>{ entry: candidate, index: i - 1 }\<close> that \<^verbatim>\<open>locateEntry\<close> returns;
  \<open>entry = None\<close> is the JavaScript \<^verbatim>\<open>undefined\<close>.\<close>

record 'n located =
  entry :: "'n entryPoint option"
  index :: int

subsection \<open>DOM operations used by the class\<close>

text \<open>
  \<^verbatim>\<open>classList.add(c)\<close> and \<^verbatim>\<open>classList.remove(c)\<close> on a token set. Both validate the
  string first: the empty string throws a SyntaxError, a string with ASCII white space an
  InvalidCharacterError. \<^verbatim>\<open>add\<close> then appends the token unless the set has it,
  \<^verbatim>\<open>remove\<close> takes it out.
\<close>

definition tokenError :: "string \<Rightarrow> error option" where
  "tokenError c =
     (if c = [] then Some SyntaxError
      else if list_ex isAsciiWhitespace c then Some InvalidCharacterError
      else None)"

definition classList_add :: "token list \<Rightarrow> string \<Rightarrow> error + token list" where
  "classList_add ts c =
     (case tokenError c of
        Some err \<Rightarrow> Inl err
      | None \<Rightarrow> Inr (if Abs_token c \<in> set ts then ts else ts @ [Abs_token c]))"

definition classList_remove :: "token list \<Rightarrow> string \<Rightarrow> error + token list" where
  "classList_remove ts c =
     (case tokenError c of
        Some err \<Rightarrow> Inl err
      | None \<Rightarrow> Inr (filter (\<lambda>t. t \<noteq> Abs_token c) ts))"

text \<open>
  The loop \<^verbatim>\<open>for (const cssClass of classes) node.classList.op(cssClass)\<close>: the token set
  as the loop leaves it, and the exception that has ended it, if any. The classes before
  the offending one have been applied.
\<close>

fun applyEach ::
  "(token list \<Rightarrow> string \<Rightarrow> error + token list) \<Rightarrow> string list \<Rightarrow> token list
     \<Rightarrow> error option \<times> token list"
where
  "applyEach op [] ts = (None, ts)"
| "applyEach op (c # cs) ts =
     (case op ts c of
        Inl err \<Rightarrow> (Some err, ts)
      | Inr ts' \<Rightarrow> applyEach op cs ts')"

definition addClasses :: "string list \<Rightarrow> token list \<Rightarrow> error option \<times> token list" where
  "addClasses classes ts = applyEach classList_add classes ts"

definition removeClasses :: "string list \<Rightarrow> token list \<Rightarrow> error option \<times> token list" where
  "removeClasses classes ts = applyEach classList_remove classes ts"

text \<open>\<^verbatim>\<open>String.prototype.slice(start, end)\<close>: a negative index counts from the end, and
  both indices are clamped to the string.\<close>

definition sliceIndex :: "string \<Rightarrow> int \<Rightarrow> nat" where
  "sliceIndex s k =
     (if k < 0 then nat (max (int (length s) + k) 0) else nat (min k (int (length s))))"

definition slice :: "string \<Rightarrow> int \<Rightarrow> int \<Rightarrow> string" where
  "slice s from to = take (sliceIndex s to - sliceIndex s from) (drop (sliceIndex s from) s)"

definition sliceFrom :: "string \<Rightarrow> int \<Rightarrow> string" where
  "sliceFrom s from = drop (sliceIndex s from) s"

text \<open>\<^verbatim>\<open>Math.min(n, x)\<close> and the arithmetic of \<^verbatim>\<open>offsetToLineColumn\<close>, where \<open>x\<close> may
  be \<^verbatim>\<open>Infinity\<close>.\<close>

fun jsnum_minus :: "jsnum \<Rightarrow> int \<Rightarrow> jsnum" where
  "jsnum_minus (Fin a) b = Fin (a - b)"
| "jsnum_minus Infinity b = Infinity"

fun jsnum_plus :: "int \<Rightarrow> jsnum \<Rightarrow> jsnum" where
  "jsnum_plus a (Fin b) = Fin (a + b)"
| "jsnum_plus a Infinity = Infinity"

fun Math_min :: "int \<Rightarrow> jsnum \<Rightarrow> int" where
  "Math_min n (Fin a) = min n a"
| "Math_min n Infinity = n"

section \<open>Lookup: \<open>locateEntry\<close>\<close>

text \<open>
  The loop of \<^verbatim>\<open>locateEntry\<close>, from index \<open>i\<close> with the current \<^verbatim>\<open>candidate\<close>. When the
  loop ends without \<^verbatim>\<open>candidate\<close> ever being assigned (an empty array), reading
  \<^verbatim>\<open>candidate.offset\<close> throws a TypeError. \<open>Inr None\<close> is the result \<^verbatim>\<open>undefined\<close>.
\<close>

fun locateLoop ::
  "'n entryPoint list \<Rightarrow> int \<Rightarrow> 'n entryPoint option \<Rightarrow> int \<Rightarrow> error + 'n located option"
where
  "locateLoop [] off candidate i =
     (case candidate of
        None \<Rightarrow> Inl TypeError
      | Some c \<Rightarrow>
          if off < offset c + int (length (textContent (node c)))
          then Inr (Some \<lparr>entry = Some c, index = i - 1\<rparr>)
          else Inr None)"
| "locateLoop (e # es) off candidate i =
     (if offset e > off then Inr (Some \<lparr>entry = candidate, index = i - 1\<rparr>)
      else locateLoop es off (Some e) (i + 1))"

fun locateEntry :: "'n entryPoint list \<Rightarrow> jsnum \<Rightarrow> error + 'n located option" where
  "locateEntry es Infinity = Inr None"
| "locateEntry es (Fin off) = locateLoop es off None 0"

section \<open>Position translation: \<open>offsetToLineColumn\<close>\<close>

text \<open>The result \<^verbatim>\<open>{line, column}\<close> is a pair. With an empty array \<^verbatim>\<open>entries[-1]\<close> is
  \<^verbatim>\<open>undefined\<close> and reading its \<^verbatim>\<open>line\<close> throws; so does reading \<^verbatim>\<open>entry.entry.line\<close>
  when the \<^verbatim>\<open>entry\<close> component is \<^verbatim>\<open>undefined\<close>.\<close>

definition offsetToLineColumn :: "'n entryPoint list \<Rightarrow> jsnum \<Rightarrow> error + ('n \<times> jsnum)" where
  "offsetToLineColumn es off =
     (case locateEntry es off of
        Inl err \<Rightarrow> Inl err
      | Inr None \<Rightarrow>
          (if es = [] then Inl TypeError
           else let l = last es in
             Inr (line l,
                  Fin (column l +
                       Math_min (int (length (textContent (node l))))
                                (jsnum_minus off (offset l)))))
      | Inr (Some r) \<Rightarrow>
          (case entry r of
             None \<Rightarrow> Inl TypeError
           | Some e \<Rightarrow> Inr (line e, jsnum_minus (jsnum_plus (column e) off) (offset e))))"

section \<open>Range splitting: \<open>ensureExactSpan\<close>\<close>

text \<open>
  \<^verbatim>\<open>splitEntry(entry, offset)\<close>. The source receives the entry object, which is the element
  of the array at the index that \<^verbatim>\<open>locateEntry\<close> returned with it; the model takes that
  index \<open>i\<close> and rewrites the element there. The new span is first given the classes of the
  old one, one \<^verbatim>\<open>classList.add\<close> at a time on its empty class list (an exception there
  would leave the array untouched); then the text is divided and the new entry is pushed at
  the end; the array is then sorted by offset (\<^verbatim>\<open>Array.prototype.sort\<close> is stable, as
  \<open>sort_key\<close> is). \<^verbatim>\<open>entry.node.after(newSpan)\<close> places the new span in the document tree,
  which the class does not read again after construction and which is not part of the state
  here.
\<close>

definition copyClasses :: "node \<Rightarrow> error + token list" where
  "copyClasses n =
     (case addClasses (classList n) [] of
        (Some err, ts) \<Rightarrow> Inl err
      | (None, ts) \<Rightarrow> Inr ts)"

definition splitEntry ::
  "'n entryPoint list \<Rightarrow> nat \<Rightarrow> int \<Rightarrow> error + 'n entryPoint list"
where
  "splitEntry es i off =
     (let e = es ! i in
      case copyClasses (node e) of
        Inl err \<Rightarrow> Inl err
      | Inr newClasses \<Rightarrow>
          (let beforeText = slice (textContent (node e)) 0 (off - offset e);
               afterText = sliceFrom (textContent (node e)) (off - offset e);
               e' = e\<lparr>node := (node e)\<lparr>textContent := beforeText\<rparr>\<rparr>;
               new = \<lparr>offset = off, line = line e, column = column e + off - offset e,
                      node = \<lparr>textContent = afterText, tokenSet = newClasses\<rparr>\<rparr>
           in Inr (sort_key offset (es[i := e'] @ [new]))))"

text \<open>
  One boundary of \<^verbatim>\<open>ensureExactSpan\<close>:
  \<^verbatim>\<open>const r = this.locateEntry(x); if (r !== undefined && r.entry.offset != x) splitEntry(r.entry, x)\<close>.
  Reading \<^verbatim>\<open>r.entry.offset\<close> throws when \<^verbatim>\<open>r.entry\<close> is \<^verbatim>\<open>undefined\<close>; an exception
  of the split is passed on.
  \<^verbatim>\<open>locateEntry\<close> returns \<^verbatim>\<open>undefined\<close> for \<^verbatim>\<open>Infinity\<close>, so the split is only ever
  called with an integer.
\<close>

definition ensureBoundary :: "'n entryPoint list \<Rightarrow> jsnum \<Rightarrow> error + 'n entryPoint list" where
  "ensureBoundary es x =
     (case locateEntry es x of
        Inl err \<Rightarrow> Inl err
      | Inr None \<Rightarrow> Inr es
      | Inr (Some r) \<Rightarrow>
          (case entry r of
             None \<Rightarrow> Inl TypeError
           | Some e \<Rightarrow>
               (case x of
                  Fin off \<Rightarrow> if offset e \<noteq> off then splitEntry es (nat (index r)) off
                             else Inr es
                | Infinity \<Rightarrow> Inr es)))"

text \<open>
  A call returns the array as it has left it together with the exception it has thrown, if
  any: an exception at the second boundary leaves the split of the first one in place.
\<close>

definition ensureExactSpan ::
  "'n entryPoint list \<Rightarrow> jsnum \<Rightarrow> jsnum \<Rightarrow> error option \<times> 'n entryPoint list"
where
  "ensureExactSpan es start stop =
     (case ensureBoundary es start of
        Inl err \<Rightarrow> (Some err, es)
      | Inr es1 \<Rightarrow>
          (case ensureBoundary es1 stop of
             Inl err \<Rightarrow> (Some err, es1)
           | Inr es2 \<Rightarrow> (None, es2)))"

section \<open>Range decoration: \<open>decorateSpan\<close> and \<open>clearSpan\<close>\<close>

text \<open>
  \<^verbatim>\<open>spanSelection\<close> is a generator; \<^verbatim>\<open>decorateSpan\<close> drains it in a \<^verbatim>\<open>for ... of\<close>
  loop whose body only touches the class list of the yielded entry, so the array does not
  change while it is enumerated. The model returns the array after \<^verbatim>\<open>ensureExactSpan\<close>
  and the indices \<open>startIndex, ..., endIndex - 1\<close> that the generator yields.
  \<^verbatim>\<open>(endEntry && endEntry.index) || length\<close> is the length of the array when \<^verbatim>\<open>endEntry\<close> is
  \<^verbatim>\<open>undefined\<close> and also when its index is \<open>0\<close>.
\<close>

definition endIndexOf :: "'n entryPoint list \<Rightarrow> 'n located option \<Rightarrow> int" where
  "endIndexOf es endEntry =
     (case endEntry of
        None \<Rightarrow> int (length es)
      | Some r \<Rightarrow> if index r = 0 then int (length es) else index r)"

definition spanSelection ::
  "'n entryPoint list \<Rightarrow> jsnum \<Rightarrow> jsnum \<Rightarrow> error option \<times> 'n entryPoint list \<times> int list"
where
  "spanSelection es start stop =
     (case ensureExactSpan es start stop of
        (Some err, es1) \<Rightarrow> (Some err, es1, [])
      | (None, es1) \<Rightarrow>
          (case locateEntry es1 start of
             Inl err \<Rightarrow> (Some err, es1, [])
           | Inr startEntry \<Rightarrow>
               (case locateEntry es1 stop of
                  Inl err \<Rightarrow> (Some err, es1, [])
                | Inr endEntry \<Rightarrow>
                    (case startEntry of
                       None \<Rightarrow> (None, es1, [])
                     | Some r \<Rightarrow> (None, es1, [index r ..endIndexOf es1 endEntry - 1])))))"

text \<open>
  The loop over the selected indices, with the inner loop over the classes: \<open>f classes\<close> is
  what the inner loop does to the token set of one node (\<open>addClasses\<close> or
  \<open>removeClasses\<close>). \<^verbatim>\<open>this._elementEntryPoints[i]\<close> is \<^verbatim>\<open>undefined\<close> outside the array
  and reading its \<^verbatim>\<open>node\<close> throws; the inner loop reads it once for every class, so not at
  all when there is no class. An exception of the inner loop ends the call, with the classes
  applied so far in place.
\<close>

definition setTokens :: "token list \<Rightarrow> 'n entryPoint \<Rightarrow> 'n entryPoint" where
  "setTokens ts e = e\<lparr>node := (node e)\<lparr>tokenSet := ts\<rparr>\<rparr>"

fun updateClasses ::
  "(string list \<Rightarrow> token list \<Rightarrow> error option \<times> token list) \<Rightarrow> string list \<Rightarrow> int list
     \<Rightarrow> 'n entryPoint list \<Rightarrow> error option \<times> 'n entryPoint list"
where
  "updateClasses f classes [] es = (None, es)"
| "updateClasses f classes (i # is) es =
     (if classes = [] then updateClasses f classes is es
      else if 0 \<le> i \<and> i < int (length es)
      then (case f classes (tokenSet (node (es ! nat i))) of
              (Some err, ts) \<Rightarrow> (Some err, es[nat i := setTokens ts (es ! nat i)])
            | (None, ts) \<Rightarrow> updateClasses f classes is (es[nat i := setTokens ts (es ! nat i)]))
      else (Some TypeError, es))"

definition decorateSpan ::
  "'n entryPoint list \<Rightarrow> jsnum \<Rightarrow> jsnum \<Rightarrow> string list \<Rightarrow> error option \<times> 'n entryPoint list"
where
  "decorateSpan es start stop classes =
     (case spanSelection es start stop of
        (Some err, es1, _) \<Rightarrow> (Some err, es1)
      | (None, es1, sel) \<Rightarrow> updateClasses addClasses classes sel es1)"

text \<open>The class defines \<^verbatim>\<open>clearSpan\<close> twice; the second definition, which does not go
  through the generator, is the one in effect. Both select the same indices.\<close>

definition clearSpan ::
  "'n entryPoint list \<Rightarrow> jsnum \<Rightarrow> jsnum \<Rightarrow> string list \<Rightarrow> error option \<times> 'n entryPoint list"
where
  "clearSpan es start stop classes =
     (case ensureExactSpan es start stop of
        (Some err, es1) \<Rightarrow> (Some err, es1)
      | (None, es1) \<Rightarrow>
          (case locateEntry es1 start of
             Inl err \<Rightarrow> (Some err, es1)
           | Inr startEntry \<Rightarrow>
               (case locateEntry es1 stop of
                  Inl err \<Rightarrow> (Some err, es1)
                | Inr endEntry \<Rightarrow>
                    (case startEntry of
                       None \<Rightarrow> (None, es1)
                     | Some r \<Rightarrow>
                         updateClasses removeClasses classes
                           [index r ..endIndexOf es1 endEntry - 1] es1))))"

section \<open>Index construction\<close>

text \<open>
  The rendering surface as the constructor reads it: the \<^verbatim>\<open>code\<close> element, its parent's
  \<^verbatim>\<open>data-source-offset\<close> (a non-negative integer when present) and its line spans
  (\<^verbatim>\<open>querySelectorAll("code > span")\<close>), each with its \<^verbatim>\<open>id\<close> and its child nodes: text
  nodes, \<^verbatim>\<open>span\<close> elements and anything else.
\<close>

datatype child = TextNode string | SpanElement node | OtherNode

record lineSpan =
  idAttr :: string
  childNodes :: "child list"

record dataset =
  sourceOffset :: "nat option"

record codeElement =
  parentElement :: "dataset option"
  lineSpans :: "lineSpan list"

text \<open>\<^verbatim>\<open>wholeText\<close> of a text node whose preceding siblings are not text nodes: its own text
  and that of the text nodes that follow it directly.\<close>

fun wholeText :: "child list \<Rightarrow> string" where
  "wholeText (TextNode t # cs) = t @ wholeText cs"
| "wholeText cs = []"

fun normalizeChildren :: "child list \<Rightarrow> child list" where
  "normalizeChildren [] = []"
| "normalizeChildren (TextNode t # cs) =
     SpanElement \<lparr>textContent = wholeText (TextNode t # cs), tokenSet = []\<rparr>
       # normalizeChildren cs"
| "normalizeChildren (c # cs) = c # normalizeChildren cs"

definition normalizeCodeRange :: "codeElement \<Rightarrow> codeElement" where
  "normalizeCodeRange n =
     n\<lparr>lineSpans := map (\<lambda>l. l\<lparr>childNodes := normalizeChildren (childNodes l)\<rparr>) (lineSpans n)\<rparr>"

text \<open>\<^verbatim>\<open>line.id.split("-").pop()\<close>: what follows the last \<^verbatim>\<open>-\<close> of the identifier, the whole
  identifier when it has none.\<close>

definition lastComponent :: "string \<Rightarrow> string" where
  "lastComponent s = rev (takeWhile (\<lambda>c. c \<noteq> CHR ''-'') (rev s))"

text \<open>The \<^verbatim>\<open>forEach\<close> over the span children of one line: the entries pushed and the offset
  cursor after the line.\<close>

fun lineEntries :: "'n \<Rightarrow> child list \<Rightarrow> int \<Rightarrow> int \<Rightarrow> 'n entryPoint list \<times> int" where
  "lineEntries lineNumber [] off col = ([], off)"
| "lineEntries lineNumber (SpanElement n # cs) off col =
     (let len = int (length (textContent n));
          (r, off') = lineEntries lineNumber cs (off + len) (col + len)
      in (\<lparr>offset = off, line = lineNumber, column = col, node = n\<rparr> # r, off'))"
| "lineEntries lineNumber (c # cs) off col = lineEntries lineNumber cs off col"

text \<open>The loop over the lines. \<open>toNumber\<close> stands for the built-in \<^verbatim>\<open>Number\<close>, applied to
  the last component of the line's identifier.\<close>

fun linesEntries :: "(string \<Rightarrow> 'n) \<Rightarrow> lineSpan list \<Rightarrow> int \<Rightarrow> 'n entryPoint list" where
  "linesEntries toNumber [] off = []"
| "linesEntries toNumber (l # ls) off =
     (let lineNumber = toNumber (lastComponent (idAttr l));
          (r, off') = lineEntries lineNumber (childNodes l) off 1
      in r @ linesEntries toNumber ls (off' + 1))"

text \<open>Reading \<^verbatim>\<open>parentElement.dataset\<close> throws when the element has no parent. The initial
  offset \<^verbatim>\<open>(sourceOffset && -Number(sourceOffset)) || 0\<close> is \<open>0\<close> without the attribute and
  for the bias \<open>0\<close>.\<close>

definition initializeEntryPoints ::
  "(string \<Rightarrow> 'n) \<Rightarrow> codeElement \<Rightarrow> error + 'n entryPoint list"
where
  "initializeEntryPoints toNumber n =
     (case parentElement n of
        None \<Rightarrow> Inl TypeError
      | Some d \<Rightarrow>
          Inr (linesEntries toNumber (lineSpans n)
                 (case sourceOffset d of None \<Rightarrow> 0 | Some b \<Rightarrow> - int b)))"

definition constructor :: "(string \<Rightarrow> 'n) \<Rightarrow> codeElement \<Rightarrow> error + 'n entryPoint list" where
  "constructor toNumber n = initializeEntryPoints toNumber (normalizeCodeRange n)"

text \<open>
  \<^verbatim>\<open>Number\<close> applied to a string, as far as it is determined here. A string of decimal
  digits converts to the integer it writes, exactly so up to \<open>2^53\<close>, and the empty string
  to \<open>0\<close>. A string with an ASCII character that no numeric literal of the language
  contains (a character that is neither white space, nor a digit, a sign, a dot, nor a
  letter of an exponent, of a radix prefix, of a hexadecimal digit or of \<^verbatim>\<open>Infinity\<close>)
  converts to \<^verbatim>\<open>NaN\<close>. For every other string the result is \<open>Undetermined\<close>: the model
  says nothing about it (white space around a literal, signs, fractions, exponents, other
  radices, digit strings beyond \<open>2^53\<close> that are rounded, characters outside ASCII).
\<close>

datatype jsnumber = Num int | NaN | Undetermined

definition isDigit :: "char \<Rightarrow> bool" where
  "isDigit c = (c \<in> set ''0123456789'')"

definition digitValue :: "char \<Rightarrow> int" where
  "digitValue c = int (of_char c) - 48"

definition inNoNumericLiteral :: "char \<Rightarrow> bool" where
  "inNoNumericLiteral c =
     ((of_char c :: nat) < 128
      \<and> c \<notin> set ''0123456789+-.eEInfityxXoObBaAcCdDfF''
      \<and> c \<notin> set [CHR 0x09, CHR 0x0A, CHR 0x0B, CHR 0x0C, CHR 0x0D, CHR 0x20])"

definition Number_js :: "string \<Rightarrow> jsnumber" where
  "Number_js s =
     (if list_all isDigit s
      then (let v = fold (\<lambda>c acc. 10 * acc + digitValue c) s 0
            in if v \<le> 2 ^ 53 then Num v else Undetermined)
      else if list_ex inNoNumericLiteral s then NaN
      else Undetermined)"

section \<open>Specification vocabulary\<close>

text \<open>Invariant 1 of the segment store: offsets strictly increasing.\<close>

abbreviation offsetsIncreasing :: "'n entryPoint list \<Rightarrow> bool" where
  "offsetsIncreasing es \<equiv> sorted_wrt (<) (map offset es)"

text \<open>No segment reaches into the next one (invariants 2 and 3 leave at most the implicit
  line break between two consecutive segments).\<close>

definition separated :: "'n entryPoint list \<Rightarrow> bool" where
  "separated es =
     sorted_wrt (\<lambda>a b. offset a + int (length (textContent (node a))) \<le> offset b) es"

text \<open>The half-open range of a segment.\<close>

definition inRange :: "'n entryPoint \<Rightarrow> int \<Rightarrow> bool" where
  "inRange e off = (offset e \<le> off \<and> off < offset e + int (length (textContent (node e))))"

text \<open>The concatenation of all segment texts, in store order.\<close>

definition docText :: "'n entryPoint list \<Rightarrow> string" where
  "docText es = concat (map (\<lambda>e. textContent (node e)) es)"

text \<open>One past the last character of the last segment (of a store that is not empty).\<close>

definition docEnd :: "'n entryPoint list \<Rightarrow> int" where
  "docEnd es = offset (last es) + int (length (textContent (node (last es))))"

text \<open>The style tags in effect at an offset: those of the last segment that begins at or
  before it.\<close>

definition tagsAt :: "'n entryPoint list \<Rightarrow> int \<Rightarrow> string set" where
  "tagsAt es off =
     fold (\<lambda>e acc. if offset e \<le> off then set (classList (node e)) else acc) es {}"

fun jsnum_le :: "jsnum \<Rightarrow> jsnum \<Rightarrow> bool" where
  "jsnum_le (Fin a) (Fin b) = (a \<le> b)"
| "jsnum_le x Infinity = True"
| "jsnum_le Infinity (Fin b) = False"

fun jsnum_less :: "jsnum \<Rightarrow> jsnum \<Rightarrow> bool" where
  "jsnum_less (Fin a) (Fin b) = (a < b)"
| "jsnum_less (Fin a) Infinity = True"
| "jsnum_less Infinity x = False"

text \<open>The segments that a range \<open>[start, stop)\<close> selects in a store whose end is \<open>dEnd\<close>:
  those that begin in the range, provided \<open>start\<close> lies in the document. When \<open>stop\<close> is
  not before the document's end the selection runs through the last segment (which matters
  only for a last segment with no text, whose offset is the document's end).\<close>

definition selected :: "jsnum \<Rightarrow> jsnum \<Rightarrow> int \<Rightarrow> 'n entryPoint \<Rightarrow> bool" where
  "selected start stop dEnd e =
     (jsnum_le start (Fin (offset e)) \<and> jsnum_less start (Fin dEnd)
      \<and> (jsnum_less (Fin (offset e)) stop \<or> jsnum_le (Fin dEnd) stop))"

text \<open>The children of a line that \<^verbatim>\<open>initializeEntryPoints\<close> keeps:
  \<^verbatim>\<open>n.nodeType === n.ELEMENT_NODE && n.nodeName === "SPAN"\<close>.\<close>

fun isSpan :: "child \<Rightarrow> bool" where
  "isSpan (SpanElement n) = True"
| "isSpan c = False"

text \<open>The token set that copying leaves on a new span: the tokens in their order, each
  once. The two halves of a segment \<open>e\<close> that is split at \<open>off\<close>: \<open>e\<close> with its text
  cut short, and the new segment with the rest of the text and a copy of the classes.\<close>

definition copyTokens :: "token list \<Rightarrow> token list" where
  "copyTokens ts = fold (\<lambda>t acc. if t \<in> set acc then acc else acc @ [t]) ts []"

definition newEntry :: "'n entryPoint \<Rightarrow> int \<Rightarrow> 'n entryPoint" where
  "newEntry e off =
     \<lparr>offset = off, line = line e, column = column e + off - offset e,
      node = \<lparr>textContent = drop (nat (off - offset e)) (textContent (node e)),
              tokenSet = copyTokens (tokenSet (node e))\<rparr>\<rparr>"

text \<open>A segment whose token set is rewritten by \<open>g\<close>.\<close>

definition mapClasses :: "(token list \<Rightarrow> token list) \<Rightarrow> 'n entryPoint \<Rightarrow> 'n entryPoint" where
  "mapClasses g e = setTokens (g (tokenSet (node e))) e"

definition truncated :: "'n entryPoint \<Rightarrow> int \<Rightarrow> 'n entryPoint" where
  "truncated e off =
     e\<lparr>node := (node e)\<lparr>textContent := take (nat (off - offset e)) (textContent (node e))\<rparr>\<rparr>"

text \<open>A boundary that \<^verbatim>\<open>locateEntry\<close> can look up without meeting an \<^verbatim>\<open>undefined\<close>
  candidate: \<^verbatim>\<open>Infinity\<close>, or an offset not before the first segment of a store that is not
  empty.\<close>

fun notBefore :: "'n entryPoint list \<Rightarrow> jsnum \<Rightarrow> bool" where
  "notBefore es Infinity = True"
| "notBefore es (Fin off) = (es \<noteq> [] \<and> offset (hd es) \<le> off)"

text \<open>An end boundary strictly after the first segment's offset: when it is found, its index
  is not \<open>0\<close>.\<close>

fun afterFirst :: "'n entryPoint list \<Rightarrow> jsnum \<Rightarrow> bool" where
  "afterFirst es Infinity = True"
| "afterFirst es (Fin off) = (es \<noteq> [] \<and> offset (hd es) < off)"

subsection \<open>Example code blocks and stores\<close>

definition seg :: "int \<Rightarrow> int \<Rightarrow> int \<Rightarrow> string \<Rightarrow> string list \<Rightarrow> jsnumber entryPoint" where
  "seg off l c t cl =
     \<lparr>offset = off, line = Num l, column = c,
      node = \<lparr>textContent = t, tokenSet = map Abs_token cl\<rparr>\<rparr>"

text \<open>The two-line document \<open>ab / cd\<close>, one span per character, and the store that the
  constructor builds for it (lemma \<open>twoLines_built\<close>); offset 2 is the line break.\<close>

definition twoLinesBlock :: codeElement where
  "twoLinesBlock =
     \<lparr>parentElement = Some \<lparr>sourceOffset = None\<rparr>,
      lineSpans =
        [\<lparr>idAttr = ''cb1-1'',
          childNodes = [SpanElement \<lparr>textContent = ''a'', tokenSet = []\<rparr>,
                        SpanElement \<lparr>textContent = ''b'', tokenSet = []\<rparr>]\<rparr>,
         \<lparr>idAttr = ''cb1-2'',
          childNodes = [SpanElement \<lparr>textContent = ''c'', tokenSet = []\<rparr>,
                        SpanElement \<lparr>textContent = ''d'', tokenSet = []\<rparr>]\<rparr>]\<rparr>"

definition twoLines :: "jsnumber entryPoint list" where
  "twoLines = [seg 0 1 1 ''a'' [], seg 1 1 2 ''b'' [], seg 3 2 1 ''c'' [], seg 4 2 2 ''d'' []]"

text \<open>A block of one line with the single span \<open>abcd\<close> of class \<open>x\<close>, and its store
  (lemma \<open>oneSegment_built\<close>).\<close>

definition oneSegmentBlock :: codeElement where
  "oneSegmentBlock =
     \<lparr>parentElement = Some \<lparr>sourceOffset = None\<rparr>,
      lineSpans =
        [\<lparr>idAttr = ''cb1-1'',
          childNodes = [SpanElement \<lparr>textContent = ''abcd'', tokenSet = [Abs_token ''x'']\<rparr>]\<rparr>]\<rparr>"

definition oneSegment :: "jsnumber entryPoint list" where
  "oneSegment = [seg 0 1 1 ''abcd'' [''x'']]"

text \<open>A code block of one line whose identifier has no line number.\<close>

definition untitledBlock :: codeElement where
  "untitledBlock =
     \<lparr>parentElement = Some \<lparr>sourceOffset = None\<rparr>,
      lineSpans = [\<lparr>idAttr = ''cb1-title'',
                    childNodes = [TextNode ''x'',
                                  SpanElement \<lparr>textContent = ''y'',
                                               tokenSet = [Abs_token ''kw'']\<rparr>]\<rparr>]\<rparr>"

section \<open>Lookup in a store with increasing offsets\<close>

lemma locateLoop_prefix:
  "\<forall>x\<in>set pre. offset x \<le> off \<Longrightarrow>
   locateLoop (pre @ rest) off cand i =
   locateLoop rest off (if pre = [] then cand else Some (last pre)) (i + int (length pre))"
  by (induction pre arbitrary: cand i) (auto simp: add.assoc)

lemma locateLoop_first_greater:
  "off < offset (hd es) \<Longrightarrow> es \<noteq> [] \<Longrightarrow>
   locateLoop es off cand i = Inr (Some \<lparr>entry = cand, index = i - 1\<rparr>)"
  by (cases es) auto

lemma store_decomp:
  assumes "offsetsIncreasing es" "es \<noteq> []" "offset (hd es) \<le> off"
  shows "\<exists>pre e post. es = pre @ e # post \<and> offset e \<le> off
           \<and> (\<forall>x\<in>set pre. offset x < offset e) \<and> (\<forall>x\<in>set post. off < offset x)"
  using assms
proof (induction es)
  case Nil
  then show ?case by simp
next
  case (Cons a es)
  show ?case
  proof (cases "es = [] \<or> off < offset (hd es)")
    case True
    have "\<forall>x\<in>set es. off < offset x"
    proof
      fix x assume x: "x \<in> set es"
      then have ne: "es \<noteq> []" by auto
      with True have lt: "off < offset (hd es)" by simp
      from Cons.prems(1) have "sorted_wrt (<) (map offset es)" by simp
      then have "offset (hd es) \<le> offset x" using x ne
        by (cases es) (auto simp: less_imp_le)
      with lt show "off < offset x" by simp
    qed
    with Cons.prems show ?thesis
      by (intro exI[of _ "[]"] exI[of _ a] exI[of _ es]) simp
  next
    case False
    then have ne: "es \<noteq> []" and le: "offset (hd es) \<le> off" by auto
    from Cons.prems(1) have inc: "offsetsIncreasing es" by simp
    from Cons.IH[OF inc ne le] obtain pre e post where
      d: "es = pre @ e # post" "offset e \<le> off" "\<forall>x\<in>set pre. offset x < offset e"
         "\<forall>x\<in>set post. off < offset x" by blast
    have "offset a < offset e" using Cons.prems(1) d(1) by auto
    with d show ?thesis
      by (intro exI[of _ "a # pre"] exI[of _ e] exI[of _ post]) simp
  qed
qed

lemma locateEntry_decomp:
  assumes "es = pre @ e # post" "offset e \<le> off"
    "\<forall>x\<in>set pre. offset x < offset e" "\<forall>x\<in>set post. off < offset x"
  shows "locateEntry es (Fin off) =
     (if post = [] \<and> \<not> off < offset e + int (length (textContent (node e))) then Inr None
      else Inr (Some \<lparr>entry = Some e, index = int (length pre)\<rparr>))"
proof -
  have pre: "\<forall>x\<in>set (pre @ [e]). offset x \<le> off" using assms(2,3) by auto
  have "locateLoop ((pre @ [e]) @ post) off None 0 =
        locateLoop post off (Some e) (int (length pre) + 1)"
    using locateLoop_prefix[OF pre, of post None 0] by (simp add: add.commute)
  moreover have "locateLoop post off (Some e) (int (length pre) + 1) =
     (if post = [] \<and> \<not> off < offset e + int (length (textContent (node e))) then Inr None
      else Inr (Some \<lparr>entry = Some e, index = int (length pre)\<rparr>))"
    using assms(4) by (cases post) auto
  ultimately show ?thesis using assms(1) by simp
qed


lemma insort_key_le_hd:
  "ys \<noteq> [] \<Longrightarrow> f a \<le> f (hd ys) \<Longrightarrow> insort_key f a ys = a # ys"
  by (cases ys) auto

lemma foldr_insort_key_single:
  "sorted (map f xs) \<Longrightarrow>
   foldr (insort_key f) xs [x] =
   filter (\<lambda>y. f y \<le> f x) xs @ x # filter (\<lambda>y. f x < f y) xs"
proof (induction xs)
  case Nil
  then show ?case by simp
next
  case (Cons a xs)
  then have IH: "foldr (insort_key f) xs [x] =
      filter (\<lambda>y. f y \<le> f x) xs @ x # filter (\<lambda>y. f x < f y) xs"
    and le: "\<forall>y\<in>set xs. f a \<le> f y" by auto
  show ?case
  proof (cases "f a \<le> f x")
    case True
    let ?L = "filter (\<lambda>y. f y \<le> f x) xs @ x # filter (\<lambda>y. f x < f y) xs"
    have "f a \<le> f (hd ?L)"
    proof (cases "filter (\<lambda>y. f y \<le> f x) xs")
      case Nil
      then show ?thesis using True by simp
    next
      case (Cons b bs)
      then have "b \<in> set (filter (\<lambda>y. f y \<le> f x) xs)" by simp
      then have "b \<in> set xs" by simp
      with le Cons show ?thesis by simp
    qed
    then have "insort_key f a ?L = a # ?L" by (intro insort_key_le_hd) auto
    with True IH show ?thesis by simp
  next
    case False
    then have all: "\<forall>y\<in>set xs. f x < f y" using le by auto
    then have f1: "filter (\<lambda>y. f y \<le> f x) xs = []" by (auto simp: filter_empty_conv not_le)
    from all have f2: "filter (\<lambda>y. f x < f y) xs = xs" by (auto simp: filter_id_conv)
    have "insort_key f a xs = a # xs" using le by (cases xs) auto
    with False IH f1 f2 show ?thesis by simp
  qed
qed

lemma sort_key_snoc:
  "sorted (map f xs) \<Longrightarrow>
   sort_key f (xs @ [x]) = filter (\<lambda>y. f y \<le> f x) xs @ x # filter (\<lambda>y. f x < f y) xs"
  by (simp add: sort_key_def foldr_insort_key_single)

lemma slice_prefix: "0 \<le> k \<Longrightarrow> slice s 0 k = take (nat k) s"
  by (auto simp: slice_def sliceIndex_def min_def)

lemma sliceFrom_suffix: "0 \<le> k \<Longrightarrow> sliceFrom s k = drop (nat k) s"
  by (auto simp: sliceFrom_def sliceIndex_def min_def)

lemma validToken_Rep [simp]: "validToken (Rep_token t)"
  using Rep_token[of t] by simp

lemma Rep_Abs_token: "validToken c \<Longrightarrow> Rep_token (Abs_token c) = c"
  by (simp add: Abs_token_inverse)

lemma Abs_token_eq: "validToken a \<Longrightarrow> validToken b \<Longrightarrow> (Abs_token a = Abs_token b) = (a = b)"
  by (simp add: Abs_token_inject)

lemma Rep_token_eq_iff: "validToken c \<Longrightarrow> (Rep_token t = c) = (t = Abs_token c)"
  by (auto simp: Rep_Abs_token Rep_token_inverse)

lemma tokenError_None: "(tokenError c = None) = validToken c"
  by (simp add: tokenError_def validToken_def)

lemma classList_add_valid:
  "validToken c \<Longrightarrow>
   classList_add ts c = Inr (if Abs_token c \<in> set ts then ts else ts @ [Abs_token c])"
  using tokenError_None[of c] by (simp add: classList_add_def)

lemma classList_remove_valid:
  "validToken c \<Longrightarrow> classList_remove ts c = Inr (filter (\<lambda>t. t \<noteq> Abs_token c) ts)"
  using tokenError_None[of c] by (simp add: classList_remove_def)

lemma addClasses_Rep:
  "addClasses (map Rep_token ts) acc =
     (None, fold (\<lambda>t acc. if t \<in> set acc then acc else acc @ [t]) ts acc)"
  by (induction ts arbitrary: acc)
     (simp_all add: addClasses_def classList_add_valid Rep_token_inverse)

lemma copyClasses_copyTokens: "copyClasses n = Inr (copyTokens (tokenSet n))"
  by (simp add: copyClasses_def classList_def addClasses_Rep copyTokens_def)

lemma set_copyTokens_aux:
  "set (fold (\<lambda>t acc. if t \<in> set acc then acc else acc @ [t]) ts acc) = set ts \<union> set acc"
  by (induction ts arbitrary: acc) auto

lemma set_copyTokens: "set (copyTokens ts) = set ts"
  by (simp add: copyTokens_def set_copyTokens_aux)


lemma splitEntry_decomp:
  assumes "offsetsIncreasing (pre @ e # post)" "offset e < off"
    "\<forall>x\<in>set post. off < offset x"
  shows "splitEntry (pre @ e # post) (length pre) off =
         Inr (pre @ truncated e off # newEntry e off # post)"
proof -
  let ?e' = "truncated e off"
  let ?new = "newEntry e off"
  have pre: "\<forall>x\<in>set pre. offset x < off" using assms(1,2)
    by (auto simp: sorted_wrt_append)
  have srt: "sorted (map offset (pre @ ?e' # post))"
    using assms(1) by (simp add: truncated_def strict_sorted_imp_sorted)
  have f1: "filter (\<lambda>y. offset y \<le> off) (pre @ ?e' # post) = pre @ [?e']"
    using pre assms(2,3) by (auto simp: truncated_def filter_empty_conv filter_id_conv less_imp_le)
  have f2: "filter (\<lambda>y. off < offset y) (pre @ ?e' # post) = post"
    using pre assms(2,3) by (auto simp: truncated_def filter_empty_conv filter_id_conv)
  have "sort_key offset ((pre @ ?e' # post) @ [?new]) =
          filter (\<lambda>y. offset y \<le> offset ?new) (pre @ ?e' # post) @ ?new #
                   filter (\<lambda>y. offset ?new < offset y) (pre @ ?e' # post)"
    by (rule sort_key_snoc[OF srt])
  also have "\<dots> = pre @ ?e' # ?new # post"
    using f1 f2 by (simp add: newEntry_def)
  finally have sorted_in: "sort_key offset ((pre @ ?e' # post) @ [?new]) =
      pre @ ?e' # ?new # post" .
  have "splitEntry (pre @ e # post) (length pre) off =
        Inr (sort_key offset ((pre @ ?e' # post) @ [?new]))"
    using assms(2)
    by (simp add: splitEntry_def Let_def truncated_def newEntry_def slice_prefix sliceFrom_suffix
        copyClasses_copyTokens)
  with sorted_in show ?thesis by simp
qed

lemma docEnd_decomp:
  "docEnd (pre @ e # post) =
     (if post = [] then offset e + int (length (textContent (node e))) else docEnd post)"
  by (simp add: docEnd_def)

lemma offset_le_docEnd: "offsetsIncreasing es \<Longrightarrow> x \<in> set es \<Longrightarrow> offset x \<le> docEnd es"
proof (induction es rule: rev_induct)
  case Nil
  then show ?case by simp
next
  case (snoc a es)
  then show ?case
    by (auto simp: docEnd_def sorted_wrt_append less_imp_le intro: order_trans)
qed

lemma ensureBoundary_Infinity [simp]: "ensureBoundary es Infinity = Inr es"
  by (simp add: ensureBoundary_def)

lemma ensureBoundary_throws:
  "es = [] \<or> off < offset (hd es) \<Longrightarrow> ensureBoundary es (Fin off) = Inl TypeError"
  by (cases es) (auto simp: ensureBoundary_def)

lemma ensureBoundary_cases:
  assumes inc: "offsetsIncreasing es" and ne: "es \<noteq> []" and le: "offset (hd es) \<le> off"
  obtains
    (beyond) "docEnd es \<le> off" "locateEntry es (Fin off) = Inr None"
      "ensureBoundary es (Fin off) = Inr es"
  | (exact) pre e post where "es = pre @ e # post" "offset e = off" "off < docEnd es"
      "locateEntry es (Fin off) = Inr (Some \<lparr>entry = Some e, index = int (length pre)\<rparr>)"
      "ensureBoundary es (Fin off) = Inr es"
  | (split) pre e post where "es = pre @ e # post" "offset e < off" "off < docEnd es"
      "\<forall>x\<in>set post. off < offset x"
      "ensureBoundary es (Fin off) = Inr (pre @ truncated e off # newEntry e off # post)"
proof -
  from store_decomp[OF inc ne le] obtain pre e post where
    d: "es = pre @ e # post" "offset e \<le> off" "\<forall>x\<in>set pre. offset x < offset e"
       "\<forall>x\<in>set post. off < offset x" by blast
  note loc = locateEntry_decomp[OF d]
  show thesis
  proof (cases "post = [] \<and> \<not> off < offset e + int (length (textContent (node e)))")
    case True
    then have "docEnd es \<le> off" using d(1) by (simp add: docEnd_decomp)
    moreover have "locateEntry es (Fin off) = Inr None" using loc True by simp
    moreover from this have "ensureBoundary es (Fin off) = Inr es"
      by (simp add: ensureBoundary_def)
    ultimately show ?thesis by (rule beyond)
  next
    case False
    then have l: "locateEntry es (Fin off) =
        Inr (Some \<lparr>entry = Some e, index = int (length pre)\<rparr>)" using loc by auto
    have lt: "off < docEnd es"
    proof (cases "post = []")
      case True
      with False d(1) show ?thesis by (simp add: docEnd_decomp)
    next
      case post: False
      then have "last post \<in> set es" using d(1) by simp
      then have "offset (last post) \<le> docEnd es" by (rule offset_le_docEnd[OF inc])
      moreover have "off < offset (last post)" using d(4) post by simp
      ultimately show ?thesis by simp
    qed
    show ?thesis
    proof (cases "offset e = off")
      case True
      with l have "ensureBoundary es (Fin off) = Inr es" by (simp add: ensureBoundary_def)
      with d(1) True lt l show ?thesis by (rule exact)
    next
      case neq: False
      with d(2) have less: "offset e < off" by simp
      have "ensureBoundary es (Fin off) = splitEntry es (length pre) off"
        using l neq by (simp add: ensureBoundary_def)
      also have "splitEntry es (length pre) off =
          Inr (pre @ truncated e off # newEntry e off # post)"
        using splitEntry_decomp[of pre e post off] inc d(1,4) less by simp
      finally show ?thesis using d(1) less lt d(4) by (intro split) auto
    qed
  qed
qed


lemma separated_prefix_le:
  "separated (pre @ e # post) \<Longrightarrow> x \<in> set pre \<Longrightarrow>
   offset x + int (length (textContent (node x))) \<le> offset e"
  by (auto simp: separated_def sorted_wrt_append)

section \<open>What a split does to the store\<close>

lemma truncated_simps [simp]:
  "offset (truncated e off) = offset e" "line (truncated e off) = line e"
  "column (truncated e off) = column e"
  "tokenSet (node (truncated e off)) = tokenSet (node e)"
  "classList (node (truncated e off)) = classList (node e)"
  "textContent (node (truncated e off)) = take (nat (off - offset e)) (textContent (node e))"
  by (simp_all add: truncated_def classList_def)

lemma newEntry_simps [simp]:
  "offset (newEntry e off) = off" "line (newEntry e off) = line e"
  "column (newEntry e off) = column e + off - offset e"
  "tokenSet (node (newEntry e off)) = copyTokens (tokenSet (node e))"
  "set (classList (node (newEntry e off))) = set (classList (node e))"
  "textContent (node (newEntry e off)) = drop (nat (off - offset e)) (textContent (node e))"
  by (simp_all add: newEntry_def classList_def set_copyTokens)

lemma ensureBoundary_Inl: "\<not> notBefore es x \<Longrightarrow> ensureBoundary es x = Inl TypeError"
  by (cases x) (auto simp: ensureBoundary_throws)

lemma ensureBoundary_Inr_notBefore: "ensureBoundary es x = Inr es' \<Longrightarrow> notBefore es x"
  using ensureBoundary_Inl[of es x] by auto

lemma split_increasing:
  assumes "offsetsIncreasing (pre @ e # post)" "offset e < off" "\<forall>x\<in>set post. off < offset x"
  shows "offsetsIncreasing (pre @ truncated e off # newEntry e off # post)"
  using assms by (auto simp: sorted_wrt_append)

lemma split_docText:
  "docText (pre @ truncated e off # newEntry e off # post) = docText (pre @ e # post)"
  by (simp add: docText_def)

lemma split_docEnd:
  assumes "offset e < off" "post = [] \<longrightarrow> off < offset e + int (length (textContent (node e)))"
  shows "docEnd (pre @ truncated e off # newEntry e off # post) = docEnd (pre @ e # post)"
proof -
  have "docEnd (pre @ truncated e off # newEntry e off # post) =
        docEnd ((pre @ [truncated e off]) @ newEntry e off # post)" by simp
  also have "\<dots> = (if post = [] then off + int (length (textContent (node (newEntry e off))))
                   else docEnd post)"
    by (simp only: docEnd_decomp newEntry_simps)
  also have "\<dots> = docEnd (pre @ e # post)"
    using assms by (auto simp: docEnd_decomp)
  finally show ?thesis .
qed

lemma split_tagsAt:
  assumes "offset e < off"
  shows "tagsAt (pre @ truncated e off # newEntry e off # post) p = tagsAt (pre @ e # post) p"
  using assms by (auto simp: tagsAt_def intro!: arg_cong[where f="fold _ post"])

lemma ensureBoundary_props:
  assumes inc: "offsetsIncreasing es" and r: "ensureBoundary es x = Inr es'"
  shows "offsetsIncreasing es'" (is ?A)
    and "docText es' = docText es" (is ?B)
    and "es \<noteq> [] \<Longrightarrow> es' \<noteq> [] \<and> docEnd es' = docEnd es \<and> offset (hd es') = offset (hd es)" (is "_ \<Longrightarrow> ?C")
    and "es = [] \<Longrightarrow> es' = []"
    and "tagsAt es' p = tagsAt es p" (is ?D)
    and "offset ` set es \<subseteq> offset ` set es'" (is ?E)
    and "x = Fin off \<Longrightarrow> off < docEnd es \<Longrightarrow> off \<in> offset ` set es'"
    and "length es \<le> length es'"
proof -
  have nb: "notBefore es x" using r by (rule ensureBoundary_Inr_notBefore)
  show "es = [] \<Longrightarrow> es' = []" using nb r by (cases x) auto
  have all: "?A \<and> ?B \<and> (es \<noteq> [] \<longrightarrow> ?C) \<and> ?D \<and> ?E
       \<and> (x = Fin off \<longrightarrow> off < docEnd es \<longrightarrow> off \<in> offset ` set es') \<and> length es \<le> length es'"
  proof (cases x)
    case Infinity
    with r inc show ?thesis by auto
  next
    case (Fin k)
    with nb have ne: "es \<noteq> []" and le: "offset (hd es) \<le> k" by auto
    from inc ne le show ?thesis
    proof (cases rule: ensureBoundary_cases)
      case beyond
      with r Fin inc show ?thesis by auto
    next
      case (exact pre e post)
      with r Fin inc show ?thesis by auto
    next
      case (split pre e post)
      then have es': "es' = pre @ truncated e k # newEntry e k # post" using r Fin by simp
      have p: "post = [] \<longrightarrow> k < offset e + int (length (textContent (node e)))"
        using split(1,3) by (auto simp: docEnd_decomp)
      have A: ?A unfolding es' using inc split(1,2,4) split_increasing[of pre e post k] by simp
      have B: ?B unfolding es' split(1) by (rule split_docText)
      have C: ?C unfolding es' split(1) using split_docEnd[OF split(2) p, of pre]
        by (cases pre) auto
      have D: ?D unfolding es' split(1) by (rule split_tagsAt[OF split(2)])
      have E: ?E unfolding es' split(1) by auto
      have F: "k \<in> offset ` set es'" unfolding es' by (auto simp: image_iff)
      have G: "length es \<le> length es'" unfolding es' split(1) by simp
      from A B C D E F G Fin show ?thesis by blast
    qed
  qed
  then show ?A ?B ?D ?E "length es \<le> length es'" by simp_all
  from all show "es \<noteq> [] \<Longrightarrow> ?C" by simp
  from all show "x = Fin off \<Longrightarrow> off < docEnd es \<Longrightarrow> off \<in> offset ` set es'" by simp
qed


lemma settled_iff:
  assumes inc: "offsetsIncreasing es" and ne: "es \<noteq> []" and le: "offset (hd es) \<le> off"
  shows "(ensureBoundary es (Fin off) = Inr es) = (docEnd es \<le> off \<or> off \<in> offset ` set es)"
  using inc ne le
proof (cases rule: ensureBoundary_cases)
  case beyond
  then show ?thesis by simp
next
  case (exact pre e post)
  then show ?thesis by auto
next
  case (split pre e post)
  have "\<forall>x\<in>set pre. offset x < offset e" using inc split(1) by (auto simp: sorted_wrt_append)
  then have "off \<notin> offset ` set es" using split(1,2,4) by auto
  moreover have "ensureBoundary es (Fin off) \<noteq> Inr es"
  proof
    assume "ensureBoundary es (Fin off) = Inr es"
    with split(5) have "length es = length (pre @ truncated e off # newEntry e off # post)"
      by simp
    with split(1) show False by simp
  qed
  ultimately show ?thesis using split(3) by simp
qed

lemma ensureBoundary_idem:
  assumes inc: "offsetsIncreasing es" and r: "ensureBoundary es x = Inr es'"
  shows "ensureBoundary es' x = Inr es'"
proof (cases x)
  case Infinity
  then show ?thesis by simp
next
  case (Fin off)
  from ensureBoundary_Inr_notBefore[OF r] Fin have ne: "es \<noteq> []" and le: "offset (hd es) \<le> off"
    by auto
  note p = ensureBoundary_props[OF inc r]
  from p(3)[OF ne] have ne': "es' \<noteq> []" and de: "docEnd es' = docEnd es"
    and hd: "offset (hd es') = offset (hd es)" by auto
  have "docEnd es' \<le> off \<or> off \<in> offset ` set es'"
    using p(7)[OF Fin] de by (cases "off < docEnd es") auto
  then show ?thesis using settled_iff[OF p(1) ne', of off] le hd Fin by simp
qed

lemma ensureBoundary_settled_preserved:
  assumes inc: "offsetsIncreasing es" and s: "ensureBoundary es y = Inr es"
    and r: "ensureBoundary es x = Inr es'"
  shows "ensureBoundary es' y = Inr es'"
proof (cases y)
  case Infinity
  then show ?thesis by simp
next
  case (Fin off)
  from ensureBoundary_Inr_notBefore[OF s] Fin have ne: "es \<noteq> []" and le: "offset (hd es) \<le> off"
    by auto
  note p = ensureBoundary_props[OF inc r]
  from p(3)[OF ne] have ne': "es' \<noteq> []" and de: "docEnd es' = docEnd es"
    and hd: "offset (hd es') = offset (hd es)" by auto
  from s Fin settled_iff[OF inc ne le] have "docEnd es \<le> off \<or> off \<in> offset ` set es" by simp
  then have "docEnd es' \<le> off \<or> off \<in> offset ` set es'" using de p(6) by auto
  then show ?thesis using settled_iff[OF p(1) ne', of off] le hd Fin by simp
qed

lemma ensureExactSpan_cases:
  obtains (throw1) err where "ensureBoundary es start = Inl err"
      "ensureExactSpan es start stop = (Some err, es)"
  | (throw2) es1 err where "ensureBoundary es start = Inr es1" "ensureBoundary es1 stop = Inl err"
      "ensureExactSpan es start stop = (Some err, es1)"
  | (both) es1 es2 where "ensureBoundary es start = Inr es1" "ensureBoundary es1 stop = Inr es2"
      "ensureExactSpan es start stop = (None, es2)"
proof (cases "ensureBoundary es start")
  case (Inl err)
  then show ?thesis by (intro throw1[of err]) (simp_all add: ensureExactSpan_def)
next
  case (Inr es1)
  show ?thesis
  proof (cases "ensureBoundary es1 stop")
    case (Inl err)
    with Inr show ?thesis by (intro throw2[of es1 err]) (simp_all add: ensureExactSpan_def)
  next
    case (Inr es2)
    with \<open>ensureBoundary es start = Inr es1\<close> show ?thesis
      by (intro both[of es1 es2]) (simp_all add: ensureExactSpan_def)
  qed
qed

section \<open>The segments that a range selects\<close>

lemma setTokens_simps [simp]:
  "offset (setTokens ts e) = offset e" "line (setTokens ts e) = line e"
  "column (setTokens ts e) = column e"
  "textContent (node (setTokens ts e)) = textContent (node e)"
  "tokenSet (node (setTokens ts e)) = ts"
  by (simp_all add: setTokens_def)

lemma mapClasses_simps [simp]:
  "offset (mapClasses g e) = offset e" "line (mapClasses g e) = line e"
  "column (mapClasses g e) = column e"
  "textContent (node (mapClasses g e)) = textContent (node e)"
  "tokenSet (node (mapClasses g e)) = g (tokenSet (node e))"
  by (simp_all add: mapClasses_def)

lemma updateClasses_step:
  assumes ok: "\<And>ts. fst (f T ts) = None" and fid: "\<And>ts. f [] ts = (None, ts)"
    and i: "0 \<le> i" "i < int (length es)"
  shows "updateClasses f T (i # sel) es =
         updateClasses f T sel (es[nat i := mapClasses (\<lambda>ts. snd (f T ts)) (es ! nat i)])"
proof (cases "T = []")
  case True
  have "mapClasses (\<lambda>ts. snd (f [] ts)) (es ! nat i) = es ! nat i"
    by (simp add: mapClasses_def setTokens_def fid)
  then show ?thesis using True by simp
next
  case False
  obtain err ts where r: "f T (tokenSet (node (es ! nat i))) = (err, ts)"
    by (cases "f T (tokenSet (node (es ! nat i)))")
  with ok[of "tokenSet (node (es ! nat i))"] have "err = None" by simp
  with r False i show ?thesis by (simp add: mapClasses_def)
qed

lemma updateClasses_range:
  assumes ok: "\<And>ts. fst (f T ts) = None" and fid: "\<And>ts. f [] ts = (None, ts)"
  shows "0 \<le> i \<Longrightarrow> j \<le> int (length es) \<Longrightarrow>
   \<exists>es'. updateClasses f T [i..j - 1] es = (None, es') \<and> length es' = length es
     \<and> (\<forall>k<length es. es' ! k =
           (if i \<le> int k \<and> int k < j then mapClasses (\<lambda>ts. snd (f T ts)) (es ! k)
            else es ! k))"
proof (induction "nat (j - i)" arbitrary: i es)
  case 0
  then have "[i..j - 1] = []" by simp
  with 0 show ?case by auto
next
  case (Suc n)
  then have lt: "i < j" by simp
  then have up: "[i..j - 1] = i # [i + 1..j - 1]" by (simp add: upto_rec1)
  let ?g = "\<lambda>ts. snd (f T ts)"
  let ?es = "es[nat i := mapClasses ?g (es ! nat i)]"
  have n: "n = nat (j - (i + 1))" using Suc.hyps(2) by simp
  have "0 \<le> i + 1" "j \<le> int (length ?es)" using Suc.prems by simp_all
  from Suc.hyps(1)[OF n this] obtain es' where
    r: "updateClasses f T [i + 1..j - 1] ?es = (None, es')" "length es' = length ?es"
       "\<forall>k<length ?es. es' ! k =
          (if i + 1 \<le> int k \<and> int k < j then mapClasses ?g (?es ! k) else ?es ! k)"
    by blast
  have "i < int (length es)" using lt Suc.prems(2) by simp
  from updateClasses_step[of f T i es, OF ok fid Suc.prems(1) this]
  have u: "updateClasses f T [i..j - 1] es = (None, es')"
    using up r(1) by simp
  have "es' ! k = (if i \<le> int k \<and> int k < j then mapClasses ?g (es ! k) else es ! k)"
    if k: "k < length es" for k
  proof (cases "k = nat i")
    case True
    then show ?thesis using r(3) k Suc.prems(1) lt by simp
  next
    case False
    then have "?es ! k = es ! k" by simp
    moreover have "(i + 1 \<le> int k) = (i \<le> int k)" using False Suc.prems(1) by auto
    ultimately show ?thesis using r(3) k by simp
  qed
  with u r(2) show ?case by simp
qed

lemma ensureBoundary_total:
  assumes inc: "offsetsIncreasing es" and nb: "notBefore es x"
  shows "\<exists>es'. ensureBoundary es x = Inr es'"
proof (cases x)
  case Infinity
  then show ?thesis by simp
next
  case (Fin off)
  with nb have "es \<noteq> []" "offset (hd es) \<le> off" by auto
  with inc show ?thesis unfolding Fin by (cases rule: ensureBoundary_cases) auto
qed

lemma notBefore_preserved:
  assumes "offsetsIncreasing es" "ensureBoundary es x = Inr es'" "notBefore es y"
  shows "notBefore es' y"
  using ensureBoundary_props(3)[OF assms(1,2)] assms(3) by (cases y) auto

lemma afterFirst_preserved:
  assumes "offsetsIncreasing es" "ensureBoundary es x = Inr es'" "afterFirst es y"
  shows "afterFirst es' y"
  using ensureBoundary_props(3)[OF assms(1,2)] assms(3) by (cases y) auto

lemma afterFirst_notBefore: "afterFirst es y \<Longrightarrow> notBefore es y"
  by (cases y) auto

lemma locateEntry_settled:
  assumes inc: "offsetsIncreasing es" and nb: "notBefore es x"
    and s: "ensureBoundary es x = Inr es"
  obtains (absent) "locateEntry es x = Inr None"
      "x = Infinity \<or> (\<exists>off. x = Fin off \<and> es \<noteq> [] \<and> docEnd es \<le> off)"
  | (found) off i where "x = Fin off" "i < length es" "offset (es ! i) = off"
      "off < docEnd es"
      "locateEntry es x = Inr (Some \<lparr>entry = Some (es ! i), index = int i\<rparr>)"
proof (cases x)
  case Infinity
  then show ?thesis by (intro absent) simp_all
next
  case (Fin off)
  with nb have ne: "es \<noteq> []" and le: "offset (hd es) \<le> off" by auto
  from inc ne le show ?thesis
  proof (cases rule: ensureBoundary_cases)
    case beyond
    then show ?thesis using Fin ne by (intro absent) simp_all
  next
    case (exact pre e post)
    then show ?thesis using Fin by (intro found[of off "length pre"]) simp_all
  next
    case (split pre e post)
    with s Fin have "length es = length (pre @ truncated e off # newEntry e off # post)"
      by simp
    with split(1) show ?thesis by simp
  qed
qed

lemma increasing_nth_less:
  "offsetsIncreasing es \<Longrightarrow> i < length es \<Longrightarrow> k < length es \<Longrightarrow>
   (offset (es ! i) < offset (es ! k)) = (i < k)"
proof -
  assume a: "offsetsIncreasing es" "i < length es" "k < length es"
  have lt: "offset (es ! p) < offset (es ! q)" if "p < q" "q < length es" for p q
    using sorted_wrt_nth_less[OF a(1), of p q] that by simp
  show ?thesis
  proof (cases "i < k")
    case True
    then show ?thesis using lt[of i k] a by simp
  next
    case False
    then have "k = i \<or> k < i" by auto
    then show ?thesis using lt[of k i] a False by auto
  qed
qed

lemma increasing_nth_le:
  "offsetsIncreasing es \<Longrightarrow> i < length es \<Longrightarrow> k < length es \<Longrightarrow>
   (offset (es ! i) \<le> offset (es ! k)) = (i \<le> k)"
  using increasing_nth_less[of es k i] by (auto simp: not_less[symmetric])


lemma ensureExactSpan_total:
  assumes inc: "offsetsIncreasing es" and nb1: "notBefore es start" and nb2: "notBefore es stop"
  obtains es1 es2 where "ensureBoundary es start = Inr es1" "ensureBoundary es1 stop = Inr es2"
    "ensureExactSpan es start stop = (None, es2)"
proof -
  from ensureBoundary_total[OF inc nb1] obtain es1 where
    e1: "ensureBoundary es start = Inr es1" by blast
  note inc1 = ensureBoundary_props(1)[OF inc e1]
  from ensureBoundary_total[OF inc1 notBefore_preserved[OF inc e1 nb2]] obtain es2 where
    e2: "ensureBoundary es1 stop = Inr es2" by blast
  from e1 e2 have "ensureExactSpan es start stop = (None, es2)"
    by (simp add: ensureExactSpan_def)
  with e1 e2 show thesis by (rule that)
qed

lemma ensureExactSpan_props:
  assumes inc: "offsetsIncreasing es" and r: "r = snd (ensureExactSpan es start stop)"
  shows "offsetsIncreasing r" (is "?A")
    and "docText r = docText es" (is "?B")
    and "tagsAt r p = tagsAt es p" (is "?C")
    and "offset ` set es \<subseteq> offset ` set r" (is "?D")
    and "es \<noteq> [] \<Longrightarrow> r \<noteq> [] \<and> docEnd r = docEnd es \<and> offset (hd r) = offset (hd es)"
      (is "_ \<Longrightarrow> ?E")
    and "es = [] \<Longrightarrow> r = []" (is "_ \<Longrightarrow> ?F")
proof -
  have "?A \<and> ?B \<and> ?C \<and> ?D \<and> (es \<noteq> [] \<longrightarrow> ?E) \<and> (es = [] \<longrightarrow> ?F)"
  proof (cases rule: ensureExactSpan_cases[of es start stop])
    case (throw1 err)
    then have "r = es" using r by simp
    then show ?thesis using inc by simp
  next
    case (throw2 es1 err)
    then have "r = es1" using r by simp
    with ensureBoundary_props[OF inc throw2(1)] show ?thesis by blast
  next
    case (both es1 es2)
    then have r2: "r = es2" using r by simp
    note p = ensureBoundary_props[OF inc both(1)]
    note q = ensureBoundary_props[OF p(1) both(2)]
    have D: "offset ` set es \<subseteq> offset ` set es2" using p(6) q(6) by blast
    have E: "es \<noteq> [] \<longrightarrow> es2 \<noteq> [] \<and> docEnd es2 = docEnd es \<and> offset (hd es2) = offset (hd es)"
      using p(3) q(3) by auto
    have F: "es = [] \<longrightarrow> es2 = []" using p(4) q(4) by auto
    from p(1,2,5) q(1,2,5) D E F r2 show ?thesis by simp
  qed
  then show ?A ?B ?C ?D "es \<noteq> [] \<Longrightarrow> ?E" "es = [] \<Longrightarrow> ?F" by simp_all
qed

lemma ensureExactSpan_settled:
  assumes inc: "offsetsIncreasing es" and e: "ensureExactSpan es start stop = (None, es2)"
  shows "ensureBoundary es2 start = Inr es2" and "ensureBoundary es2 stop = Inr es2"
proof -
  from e obtain es1 where e1: "ensureBoundary es start = Inr es1"
    and e2: "ensureBoundary es1 stop = Inr es2"
    by (auto simp: ensureExactSpan_def split: sum.splits)
  note inc1 = ensureBoundary_props(1)[OF inc e1]
  have a: "ensureBoundary es1 start = Inr es1" by (rule ensureBoundary_idem[OF inc e1])
  show "ensureBoundary es2 start = Inr es2"
    by (rule ensureBoundary_settled_preserved[OF inc1 a e2])
  show "ensureBoundary es2 stop = Inr es2" by (rule ensureBoundary_idem[OF inc1 e2])
qed

lemma spanSelection_char:
  assumes inc: "offsetsIncreasing es" and nb: "notBefore es start" and af: "afterFirst es stop"
    and e: "ensureExactSpan es start stop = (None, es2)"
  shows "\<exists>i j. spanSelection es start stop = (None, es2, [i..j - 1]) \<and> 0 \<le> i
           \<and> j \<le> int (length es2)
           \<and> (\<forall>k<length es2. (i \<le> int k \<and> int k < j) =
                                selected start stop (docEnd es) (es2 ! k))"
proof (cases "es = []")
  case True
  with nb af have inf: "start = Infinity" "stop = Infinity"
    by (cases start; cases stop; simp)+
  from ensureExactSpan_props(6)[OF inc _ True, of es2 start stop] e have "es2 = []" by simp
  with inf e show ?thesis
    by (intro exI[of _ 0]) (simp add: spanSelection_def)
next
  case ne: False
  from ensureExactSpan_props(1,5)[OF inc, of es2 start stop] e ne
  have inc2: "offsetsIncreasing es2" and ne2: "es2 \<noteq> []" and de: "docEnd es2 = docEnd es"
    and hd: "offset (hd es2) = offset (hd es)" by simp_all
  have nb2: "notBefore es2 start" using nb ne2 hd by (cases start) auto
  have af2: "afterFirst es2 stop" using af ne2 hd by (cases stop) auto
  note st = ensureExactSpan_settled[OF inc e]
  have top: "offset (es2 ! k) \<le> docEnd es" if "k < length es2" for k
    using offset_le_docEnd[OF inc2, of "es2 ! k"] that de by simp
  from inc2 nb2 st(1) show ?thesis
  proof (cases rule: locateEntry_settled)
    case absent
    then have "\<not> jsnum_less start (Fin (docEnd es))" using de by auto
    then have "\<forall>k<length es2. \<not> selected start stop (docEnd es) (es2 ! k)"
      by (simp add: selected_def)
    moreover have "spanSelection es start stop = (None, es2, [0..0 - 1])"
      using e absent(1) ensureBoundary_total[OF inc2 afterFirst_notBefore[OF af2]] st(2)
      by (auto simp: spanSelection_def ensureBoundary_def split: sum.splits)
    ultimately show ?thesis by (intro exI[of _ 0]) simp
  next
    case (found s i)
    from inc2 afterFirst_notBefore[OF af2] st(2) show ?thesis
    proof (cases rule: locateEntry_settled)
      case absent
      have sel: "spanSelection es start stop = (None, es2, [int i..int (length es2) - 1])"
        using e found(5) absent(1) by (simp add: spanSelection_def endIndexOf_def)
      have "(int i \<le> int k \<and> int k < int (length es2)) =
            selected start stop (docEnd es) (es2 ! k)" if k: "k < length es2" for k
      proof -
        have "jsnum_le (Fin (docEnd es)) stop" using absent(2) de by auto
        moreover have "jsnum_less start (Fin (docEnd es))" using found(1,4) de by simp
        moreover have "jsnum_le start (Fin (offset (es2 ! k))) = (i \<le> k)"
          using found(1,3) increasing_nth_le[OF inc2 found(2) k] by auto
        ultimately show ?thesis using k by (simp add: selected_def)
      qed
      with sel show ?thesis by (intro exI[of _ "int i"] exI[of _ "int (length es2)"]) simp
    next
      case (found t j)
      note fs = \<open>start = Fin s\<close> \<open>i < length es2\<close> \<open>offset (es2 ! i) = s\<close> \<open>s < docEnd es2\<close>
        \<open>locateEntry es2 start = Inr (Some \<lparr>entry = Some (es2 ! i), index = int i\<rparr>)\<close>
      have "offset (es2 ! 0) < offset (es2 ! j)"
        using af2 found(1,3) ne2 by (simp add: hd_conv_nth)
      then have j0: "j \<noteq> 0" by (intro notI) simp
      have sel: "spanSelection es start stop = (None, es2, [int i..int j - 1])"
        using e fs(5) found(5) j0 by (simp add: spanSelection_def endIndexOf_def)
      have "(int i \<le> int k \<and> int k < int j) = selected start stop (docEnd es) (es2 ! k)"
        if k: "k < length es2" for k
      proof -
        have "\<not> jsnum_le (Fin (docEnd es)) stop" using found(1,4) de by simp
        moreover have "jsnum_less start (Fin (docEnd es))" using fs(1,4) de by simp
        moreover have "jsnum_le start (Fin (offset (es2 ! k))) = (i \<le> k)"
          using fs(1,3) increasing_nth_le[OF inc2 fs(2) k] by auto
        moreover have "jsnum_less (Fin (offset (es2 ! k))) stop = (k < j)"
          using found(1,3) increasing_nth_less[OF inc2 k found(2)] by auto
        ultimately show ?thesis by (simp add: selected_def)
      qed
      with sel found(2) show ?thesis by (intro exI[of _ "int i"] exI[of _ "int j"]) simp
    qed
  qed
qed


lemma span_update:
  assumes ok: "\<And>ts. fst (f T ts) = None" and fid: "\<And>ts. f [] ts = (None, ts)"
    and inc: "offsetsIncreasing es" and nb: "notBefore es start" and af: "afterFirst es stop"
    and e: "ensureExactSpan es start stop = (None, es2)"
  shows "\<exists>sel. spanSelection es start stop = (None, es2, sel)
           \<and> updateClasses f T sel es2 =
               (None, map (\<lambda>e. if selected start stop (docEnd es) e
                                then mapClasses (\<lambda>ts. snd (f T ts)) e else e)
                          es2)"
proof -
  from spanSelection_char[OF inc nb af e] obtain i j where
    s: "spanSelection es start stop = (None, es2, [i..j - 1])" "0 \<le> i" "j \<le> int (length es2)"
       "\<forall>k<length es2. (i \<le> int k \<and> int k < j) = selected start stop (docEnd es) (es2 ! k)"
    by blast
  from updateClasses_range[of f T, OF ok fid s(2,3)] obtain es' where
    u: "updateClasses f T [i..j - 1] es2 = (None, es')" "length es' = length es2"
       "\<forall>k<length es2. es' ! k =
          (if i \<le> int k \<and> int k < j then mapClasses (\<lambda>ts. snd (f T ts)) (es2 ! k)
           else es2 ! k)"
    by blast
  have "es' = map (\<lambda>e. if selected start stop (docEnd es) e
                        then mapClasses (\<lambda>ts. snd (f T ts)) e else e) es2"
    using u(2,3) s(4) by (intro nth_equalityI) simp_all
  with s(1) u(1) show ?thesis by simp
qed

text \<open>A range that selects nothing: the generator yields no entry, so no class list is
  touched, whatever the classes are.\<close>

lemma spanSelection_empty:
  assumes inc: "offsetsIncreasing es" and nb: "notBefore es start" and af: "afterFirst es stop"
    and e: "ensureExactSpan es start stop = (None, es2)"
    and none: "\<forall>x\<in>set es2. \<not> selected start stop (docEnd es) x"
  shows "spanSelection es start stop = (None, es2, [])"
proof -
  from spanSelection_char[OF inc nb af e] obtain i j where
    s: "spanSelection es start stop = (None, es2, [i..j - 1])" "0 \<le> i" "j \<le> int (length es2)"
       "\<forall>k<length es2. (i \<le> int k \<and> int k < j) = selected start stop (docEnd es) (es2 ! k)"
    by blast
  have "\<not> i < j"
  proof
    assume lt: "i < j"
    then have k: "nat i < length es2" using s(2,3) by simp
    from s(4) k have "(i \<le> int (nat i) \<and> int (nat i) < j) =
        selected start stop (docEnd es) (es2 ! nat i)" by blast
    with s(2) lt have "selected start stop (docEnd es) (es2 ! nat i)" by simp
    with none k show False by simp
  qed
  then have "[i..j - 1] = []" by simp
  with s(1) show ?thesis by simp
qed

lemma updateClasses_Nil: "updateClasses f T [] es = (None, es)"
  by simp

lemma clearSpan_selection:
  "clearSpan es start stop T =
     (case spanSelection es start stop of
        (Some err, es1, sel) \<Rightarrow> (Some err, es1)
      | (None, es1, sel) \<Rightarrow> updateClasses removeClasses T sel es1)"
  by (simp add: clearSpan_def spanSelection_def split: prod.splits option.splits sum.splits)

text \<open>The inner loops on valid tokens complete, and add, respectively remove, exactly the
  given names; on any strings they never remove, respectively add, a token.\<close>

lemma addClasses_valid:
  "\<forall>c\<in>set T. validToken c \<Longrightarrow>
   fst (addClasses T ts) = None
   \<and> set (map Rep_token (snd (addClasses T ts))) = set (map Rep_token ts) \<union> set T"
proof (induction T arbitrary: ts)
  case Nil
  then show ?case by (simp add: addClasses_def)
next
  case (Cons c T)
  then have v: "validToken c" and rest: "\<forall>c\<in>set T. validToken c" by simp_all
  let ?ts = "if Abs_token c \<in> set ts then ts else ts @ [Abs_token c]"
  have step: "addClasses (c # T) ts = addClasses T ?ts"
    using classList_add_valid[OF v, of ts] by (simp add: addClasses_def)
  have "set (map Rep_token ?ts) = set (map Rep_token ts) \<union> {c}"
  proof (cases "Abs_token c \<in> set ts")
    case True
    then have "Rep_token (Abs_token c) \<in> Rep_token ` set ts" by (rule imageI)
    with Rep_Abs_token[OF v] True show ?thesis by auto
  next
    case False
    then show ?thesis using Rep_Abs_token[OF v] by simp
  qed
  with Cons.IH[OF rest, of ?ts] show ?case unfolding step by auto
qed

lemma removeClasses_valid:
  "\<forall>c\<in>set T. validToken c \<Longrightarrow>
   fst (removeClasses T ts) = None
   \<and> set (map Rep_token (snd (removeClasses T ts))) = set (map Rep_token ts) - set T"
proof (induction T arbitrary: ts)
  case Nil
  then show ?case by (simp add: removeClasses_def)
next
  case (Cons c T)
  then have v: "validToken c" and rest: "\<forall>c\<in>set T. validToken c" by simp_all
  let ?ts = "filter (\<lambda>t. t \<noteq> Abs_token c) ts"
  have step: "removeClasses (c # T) ts = removeClasses T ?ts"
    using classList_remove_valid[OF v, of ts] by (simp add: removeClasses_def)
  have "set (map Rep_token ?ts) = set (map Rep_token ts) - {c}"
    using Rep_token_eq_iff[OF v] by (auto simp: image_iff)
  with Cons.IH[OF rest, of ?ts] show ?case unfolding step by auto
qed

lemma addClasses_keeps: "set ts \<subseteq> set (snd (addClasses T ts))"
  unfolding addClasses_def
proof (induction T arbitrary: ts)
  case Nil
  then show ?case by simp
next
  case (Cons c T)
  show ?case
  proof (cases "classList_add ts c")
    case (Inl err)
    then show ?thesis by simp
  next
    case (Inr ts')
    then have "set ts \<subseteq> set ts'" by (auto simp: classList_add_def split: option.splits if_splits)
    with Cons.IH[of ts'] Inr show ?thesis by auto
  qed
qed

lemma removeClasses_adds_none: "set (snd (removeClasses T ts)) \<subseteq> set ts"
  unfolding removeClasses_def
proof (induction T arbitrary: ts)
  case Nil
  then show ?case by simp
next
  case (Cons c T)
  show ?case
  proof (cases "classList_remove ts c")
    case (Inl err)
    then show ?thesis by simp
  next
    case (Inr ts')
    then have "set ts' \<subseteq> set ts" by (auto simp: classList_remove_def split: option.splits)
    with Cons.IH[of ts'] Inr show ?thesis by auto
  qed
qed

lemma decorateSpan_char:
  assumes valid: "\<forall>c\<in>set T. validToken c"
    and inc: "offsetsIncreasing es" and nb: "notBefore es start" and af: "afterFirst es stop"
    and e: "ensureExactSpan es start stop = (None, es2)"
  shows "decorateSpan es start stop T =
     (None, map (\<lambda>e. if selected start stop (docEnd es) e
                      then mapClasses (\<lambda>ts. snd (addClasses T ts)) e else e) es2)"
proof -
  have ok: "\<And>ts. fst (addClasses T ts) = None" using addClasses_valid[OF valid] by simp
  have fid: "\<And>ts. addClasses [] ts = (None, ts)" by (simp add: addClasses_def)
  from span_update[of addClasses T, OF ok fid inc nb af e] show ?thesis
    by (auto simp: decorateSpan_def)
qed

lemma clearSpan_char:
  assumes valid: "\<forall>c\<in>set T. validToken c"
    and inc: "offsetsIncreasing es" and nb: "notBefore es start" and af: "afterFirst es stop"
    and e: "ensureExactSpan es start stop = (None, es2)"
  shows "clearSpan es start stop T =
     (None, map (\<lambda>e. if selected start stop (docEnd es) e
                      then mapClasses (\<lambda>ts. snd (removeClasses T ts)) e else e) es2)"
proof -
  have ok: "\<And>ts. fst (removeClasses T ts) = None" using removeClasses_valid[OF valid] by simp
  have fid: "\<And>ts. removeClasses [] ts = (None, ts)" by (simp add: removeClasses_def)
  from span_update[of removeClasses T, OF ok fid inc nb af e] show ?thesis
    by (auto simp: clearSpan_selection)
qed

lemma fold_tags_skip:
  "\<forall>x\<in>set post. p < offset x \<Longrightarrow>
   fold (\<lambda>e acc. if offset e \<le> p then set (classList (node e)) else acc) post acc = acc"
  by (induction post arbitrary: acc) auto

lemma tagsAt_member:
  assumes inc: "offsetsIncreasing es" and m: "e \<in> set es"
  shows "tagsAt es (offset e) = set (classList (node e))"
proof -
  from m obtain pre post where d: "es = pre @ e # post" by (auto dest: split_list)
  with inc have "\<forall>x\<in>set post. offset e < offset x" by (auto simp: sorted_wrt_append)
  then show ?thesis unfolding d tagsAt_def by (simp add: fold_tags_skip)
qed

lemma selected_never:
  "jsnum_le stop start \<Longrightarrow> \<not> selected start stop d e"
  by (cases start; cases stop) (auto simp: selected_def)

section \<open>Tags through a decoration\<close>

lemma updateClasses_rel:
  assumes refl: "\<And>ts. R ts ts" and trans: "\<And>a b c. R a b \<Longrightarrow> R b c \<Longrightarrow> R a c"
    and step: "\<And>ts. R ts (snd (f T ts))"
  shows "length (snd (updateClasses f T sel es)) = length es
    \<and> (\<forall>k<length es. offset (snd (updateClasses f T sel es) ! k) = offset (es ! k)
          \<and> R (tokenSet (node (es ! k)))
               (tokenSet (node (snd (updateClasses f T sel es) ! k))))"
proof (induction sel arbitrary: es)
  case Nil
  then show ?case by (simp add: refl)
next
  case (Cons i sel)
  show ?case
  proof (cases "T = []")
    case True
    then have "updateClasses f T (i # sel) es = updateClasses f T sel es" by simp
    with Cons.IH[of es] show ?thesis by simp
  next
    case ne: False
    show ?thesis
    proof (cases "0 \<le> i \<and> i < int (length es)")
      case False
      then show ?thesis using ne by (auto simp: refl)
    next
      case True
      obtain err ts where r: "f T (tokenSet (node (es ! nat i))) = (err, ts)"
        by (cases "f T (tokenSet (node (es ! nat i)))")
      let ?es = "es[nat i := setTokens ts (es ! nat i)]"
      have l: "length ?es = length es" by simp
      have "R (tokenSet (node (es ! nat i))) ts"
        using step[of "tokenSet (node (es ! nat i))"] r by simp
      then have a: "offset (?es ! k) = offset (es ! k)
               \<and> R (tokenSet (node (es ! k))) (tokenSet (node (?es ! k)))"
        if "k < length es" for k
        using that by (cases "k = nat i") (auto simp: refl)
      show ?thesis
      proof (cases err)
        case (Some x)
        then have "updateClasses f T (i # sel) es = (Some x, ?es)" using True ne r by simp
        with a show ?thesis by simp
      next
        case None
        then have u: "updateClasses f T (i # sel) es = updateClasses f T sel ?es"
          using True ne r by simp
        from Cons.IH[of ?es] l have b: "length (snd (updateClasses f T sel ?es)) = length es"
          and c: "\<forall>k<length es. offset (snd (updateClasses f T sel ?es) ! k) = offset (?es ! k)
              \<and> R (tokenSet (node (?es ! k)))
                   (tokenSet (node (snd (updateClasses f T sel ?es) ! k)))"
          by simp_all
        show ?thesis unfolding u using a b c by (auto intro: trans)
      qed
    qed
  qed
qed

lemma decorateSpan_store:
  "\<exists>sel. snd (decorateSpan es start stop T) =
          snd (updateClasses addClasses T sel (snd (ensureExactSpan es start stop)))"
proof (cases "spanSelection es start stop")
  case (fields err es1 sel)
  have es1: "es1 = snd (ensureExactSpan es start stop)"
    using fields by (auto simp: spanSelection_def split: prod.splits option.splits sum.splits)
  show ?thesis
  proof (cases err)
    case None
    with fields es1 show ?thesis by (intro exI[of _ sel]) (simp add: decorateSpan_def)
  next
    case (Some a)
    with fields es1 show ?thesis by (intro exI[of _ "[]"]) (simp add: decorateSpan_def)
  qed
qed

lemma clearSpan_store:
  "\<exists>sel. snd (clearSpan es start stop T) =
          snd (updateClasses removeClasses T sel (snd (ensureExactSpan es start stop)))"
proof (cases "spanSelection es start stop")
  case (fields err es1 sel)
  have es1: "es1 = snd (ensureExactSpan es start stop)"
    using fields by (auto simp: spanSelection_def split: prod.splits option.splits sum.splits)
  show ?thesis
  proof (cases err)
    case None
    with fields es1 show ?thesis by (intro exI[of _ sel]) (simp add: clearSpan_selection)
  next
    case (Some a)
    with fields es1 show ?thesis by (intro exI[of _ "[]"]) (simp add: clearSpan_selection)
  qed
qed

lemma tags_through_update:
  assumes inc: "offsetsIncreasing es"
    and len: "length es' = length es1"
    and pt: "\<forall>k<length es1. offset (es' ! k) = offset (es1 ! k)
                \<and> R (tokenSet (node (es1 ! k))) (tokenSet (node (es' ! k)))"
    and es1: "es1 = snd (ensureExactSpan es start stop)"
    and Rset: "\<And>a b. R a b \<Longrightarrow> Q (set (map Rep_token a)) (set (map Rep_token b))"
  shows "(\<forall>e\<in>set es. \<exists>e'\<in>set es'. offset e' = offset e
            \<and> Q (set (classList (node e))) (set (classList (node e'))))
       \<and> (\<forall>e'\<in>set es'. Q (tagsAt es (offset e')) (set (classList (node e'))))"
proof -
  note p = ensureExactSpan_props[OF inc es1]
  have at: "set (classList (node (es1 ! k))) = tagsAt es (offset (es1 ! k))"
    if "k < length es1" for k
    using tagsAt_member[OF p(1), of "es1 ! k"] p(3)[of "offset (es1 ! k)"] that by simp
  have q: "Q (set (classList (node (es1 ! k)))) (set (classList (node (es' ! k))))"
    if "k < length es1" for k
    using pt that Rset[of "tokenSet (node (es1 ! k))" "tokenSet (node (es' ! k))"]
    by (simp add: classList_def)
  have A: "\<exists>e'\<in>set es'. offset e' = offset e
            \<and> Q (set (classList (node e))) (set (classList (node e')))" if e: "e \<in> set es" for e
  proof -
    from e p(4) have "offset e \<in> offset ` set es1" by blast
    then obtain k where k: "k < length es1" "offset (es1 ! k) = offset e"
      by (auto simp: in_set_conv_nth)
    have "set (classList (node (es1 ! k))) = set (classList (node e))"
      using at[OF k(1)] k(2) tagsAt_member[OF inc e] by simp
    with pt k q[OF k(1)] len
    show ?thesis by (intro bexI[of _ "es' ! k"]) auto
  qed
  have B: "Q (tagsAt es (offset e')) (set (classList (node e')))" if e': "e' \<in> set es'" for e'
  proof -
    from e' len obtain k where k: "k < length es1" "es' ! k = e'"
      by (auto simp: in_set_conv_nth)
    with pt at[OF k(1)] q[OF k(1)]
    show ?thesis by auto
  qed
  from A B show ?thesis by blast
qed

text \<open>What evaluation on the example stores unfolds.\<close>

lemmas run_defs =
  decorateSpan_def clearSpan_def spanSelection_def ensureExactSpan_def ensureBoundary_def
  splitEntry_def endIndexOf_def setTokens_def addClasses_def removeClasses_def
  classList_add_def classList_remove_def copyClasses_def classList_def tokenError_def
  validToken_def isAsciiWhitespace_def Rep_Abs_token Abs_token_eq
  slice_def sliceFrom_def sliceIndex_def
  sort_key_def oneSegment_def twoLines_def seg_def Let_def

lemma afterFirst_le_notBefore:
  "afterFirst es stop \<Longrightarrow> jsnum_le stop start \<Longrightarrow> notBefore es start"
  by (cases start; cases stop) auto

lemma notBefore_less_afterFirst:
  "notBefore es start \<Longrightarrow> jsnum_less start stop \<Longrightarrow> afterFirst es stop"
  by (cases start; cases stop) auto

lemma settled_transfer:
  assumes inc: "offsetsIncreasing es2" and s: "ensureBoundary es2 x = Inr es2"
    and o: "map offset es3 = map offset es2"
    and t: "map (\<lambda>e. length (textContent (node e))) es3 =
            map (\<lambda>e. length (textContent (node e))) es2"
  shows "ensureBoundary es3 x = Inr es3"
proof (cases x)
  case Infinity
  then show ?thesis by simp
next
  case (Fin off)
  from ensureBoundary_Inr_notBefore[OF s] Fin have ne: "es2 \<noteq> []" and le: "offset (hd es2) \<le> off"
    by auto
  from o have len: "length es3 = length es2" by (rule map_eq_imp_length_eq)
  with ne have ne3: "es3 \<noteq> []" by auto
  have inc3: "offsetsIncreasing es3" using inc o by simp
  have hd: "offset (hd es3) = offset (hd es2)"
    using arg_cong[OF o, of hd] ne ne3 by (simp add: hd_map)
  have "offset (last es3) = offset (last es2)"
    using arg_cong[OF o, of last] ne ne3 by (simp add: last_map)
  moreover have "length (textContent (node (last es3))) = length (textContent (node (last es2)))"
    using arg_cong[OF t, of last] ne ne3 by (simp add: last_map)
  ultimately have de: "docEnd es3 = docEnd es2" by (simp add: docEnd_def)
  have set: "offset ` set es3 = offset ` set es2" using arg_cong[OF o, of set] by simp
  from s Fin settled_iff[OF inc ne le] have "docEnd es2 \<le> off \<or> off \<in> offset ` set es2" by simp
  then show ?thesis using settled_iff[OF inc3 ne3, of off] le hd de set Fin by simp
qed

text \<open>Where both boundaries can be looked up, \<^verbatim>\<open>ensureExactSpan\<close> completes and leaves a
  segment that begins at each boundary inside the document.\<close>

lemma ensureExactSpan_boundaries:
  assumes inc: "offsetsIncreasing es" and nb1: "notBefore es start" and nb2: "notBefore es stop"
  shows "\<exists>es'. ensureExactSpan es start stop = (None, es')
           \<and> (\<forall>k. start = Fin k \<and> k < docEnd es \<longrightarrow> k \<in> offset ` set es')
           \<and> (\<forall>k. stop = Fin k \<and> k < docEnd es \<longrightarrow> k \<in> offset ` set es')"
proof -
  from ensureExactSpan_total[OF inc nb1 nb2] obtain es1 es2 where
    e: "ensureBoundary es start = Inr es1" "ensureBoundary es1 stop = Inr es2"
       "ensureExactSpan es start stop = (None, es2)" by blast
  note p = ensureBoundary_props[OF inc e(1)]
  note q = ensureBoundary_props[OF p(1) e(2)]
  have a: "k \<in> offset ` set es2" if "start = Fin k" "k < docEnd es" for k
    using p(7)[OF that] q(6) by blast
  have b: "k \<in> offset ` set es2" if k: "stop = Fin k" "k < docEnd es" for k
  proof -
    from nb2 k(1) have "es \<noteq> []" by simp
    with p(3) k(2) have "k < docEnd es1" by simp
    from q(7)[OF k(1) this] show ?thesis .
  qed
  from e(3) a b show ?thesis by blast
qed

text \<open>What the end index \<open>0\<close> does: a range that ends at the first segment's offset runs
  through the whole store, since \<^verbatim>\<open>(endEntry && endEntry.index) || length\<close> takes the index
  \<open>0\<close> for a missing entry.\<close>

lemma decorateSpan_end_at_first_offset:
  "decorateSpan oneSegment (Fin 0) (Fin 0) [''hl''] = (None, [seg 0 1 1 ''abcd'' [''x'', ''hl'']])"
  by (simp add: run_defs)

text \<open>A class that is not a token: \<^verbatim>\<open>classList.add\<close> throws at the first selected segment,
  after the classes before it have been added there.\<close>

lemma decorateSpan_invalid_token:
  "decorateSpan oneSegment (Fin 0) (Fin 4) [''hl'', ''a b''] =
     (Some InvalidCharacterError, [seg 0 1 1 ''abcd'' [''x'', ''hl'']])"
  "decorateSpan oneSegment (Fin 0) (Fin 4) [[]] = (Some SyntaxError, oneSegment)"
  by (simp_all add: run_defs)

text \<open>A range that begins before the first segment: \<^verbatim>\<open>ensureExactSpan\<close> throws.\<close>

lemma decorateSpan_before_first_offset:
  "decorateSpan oneSegment (Fin (- 1)) (Fin (- 1)) [''hl''] = (Some TypeError, oneSegment)"
  by (simp add: run_defs)

section \<open>The invariants are established and kept\<close>

text \<open>
  The example stores are what the constructor builds for the example blocks. For every block
  whose spans have text, the constructor builds a store with strictly increasing offsets and
  separated segments, and \<^verbatim>\<open>ensureExactSpan\<close>, \<^verbatim>\<open>decorateSpan\<close> and \<^verbatim>\<open>clearSpan\<close> keep
  both properties, and the text, whether they complete or throw.
\<close>

lemma twoLines_built: "constructor Number_js twoLinesBlock = Inr twoLines"
  by (simp add: constructor_def initializeEntryPoints_def normalizeCodeRange_def
      twoLinesBlock_def twoLines_def seg_def lastComponent_def Number_js_def isDigit_def
      digitValue_def Let_def)

lemma oneSegment_built: "constructor Number_js oneSegmentBlock = Inr oneSegment"
  by (simp add: constructor_def initializeEntryPoints_def normalizeCodeRange_def
      oneSegmentBlock_def oneSegment_def seg_def lastComponent_def Number_js_def isDigit_def
      digitValue_def Let_def)

lemma lineEntries_layout:
  assumes "\<forall>n. SpanElement n \<in> set cs \<longrightarrow> textContent n \<noteq> []"
  shows "off \<le> snd (lineEntries ln cs off col)
    \<and> offsetsIncreasing (fst (lineEntries ln cs off col))
    \<and> separated (fst (lineEntries ln cs off col))
    \<and> (\<forall>e\<in>set (fst (lineEntries ln cs off col)).
          off \<le> offset e
          \<and> offset e + int (length (textContent (node e))) \<le> snd (lineEntries ln cs off col))"
  using assms
proof (induction ln cs off col rule: lineEntries.induct)
  case (1 lineNumber off col)
  then show ?case by (simp add: separated_def)
next
  case (2 lineNumber n cs off col)
  let ?len = "int (length (textContent n))"
  let ?r = "lineEntries lineNumber cs (off + ?len) (col + ?len)"
  have pos: "0 < ?len" using "2.prems" by simp
  have "\<forall>n. SpanElement n \<in> set cs \<longrightarrow> textContent n \<noteq> []" using "2.prems" by simp
  from "2.IH"[OF refl this] have
    ih: "off + ?len \<le> snd ?r" "offsetsIncreasing (fst ?r)" "separated (fst ?r)"
        "\<forall>e\<in>set (fst ?r). off + ?len \<le> offset e
            \<and> offset e + int (length (textContent (node e))) \<le> snd ?r"
    by simp_all
  have eq: "lineEntries lineNumber (SpanElement n # cs) off col =
      (\<lparr>offset = off, line = lineNumber, column = col, node = n\<rparr> # fst ?r, snd ?r)"
    by (simp add: Let_def split: prod.splits)
  have gt: "\<forall>e\<in>set (fst ?r). off < offset e \<and> off + ?len \<le> offset e"
  proof
    fix e assume "e \<in> set (fst ?r)"
    with ih(4) have "off + ?len \<le> offset e" by blast
    with pos show "off < offset e \<and> off + ?len \<le> offset e" by linarith
  qed
  have le: "off \<le> snd ?r" using ih(1) by linarith
  have bound: "\<forall>e\<in>set (fst ?r). off \<le> offset e
            \<and> offset e + int (length (textContent (node e))) \<le> snd ?r"
  proof
    fix e assume e: "e \<in> set (fst ?r)"
    with ih(4) have "offset e + int (length (textContent (node e))) \<le> snd ?r" by blast
    moreover from gt e have "off \<le> offset e" by fastforce
    ultimately show "off \<le> offset e
            \<and> offset e + int (length (textContent (node e))) \<le> snd ?r" by simp
  qed
  have first: "off + ?len \<le> snd ?r" by (rule ih(1))
  show ?case unfolding eq using ih(2,3) gt le bound first by (simp add: separated_def)
qed simp_all

lemma linesEntries_layout:
  assumes "\<forall>l\<in>set ls. \<forall>n. SpanElement n \<in> set (childNodes l) \<longrightarrow> textContent n \<noteq> []"
  shows "offsetsIncreasing (linesEntries toNumber ls off)
    \<and> separated (linesEntries toNumber ls off)
    \<and> (\<forall>e\<in>set (linesEntries toNumber ls off). off \<le> offset e)"
  using assms
proof (induction ls arbitrary: off)
  case Nil
  then show ?case by (simp add: separated_def)
next
  case (Cons l ls)
  let ?n = "toNumber (lastComponent (idAttr l))"
  let ?r = "lineEntries ?n (childNodes l) off 1"
  let ?rest = "linesEntries toNumber ls (snd ?r + 1)"
  have eq: "linesEntries toNumber (l # ls) off = fst ?r @ ?rest"
    by (simp add: Let_def split: prod.splits)
  have "\<forall>n. SpanElement n \<in> set (childNodes l) \<longrightarrow> textContent n \<noteq> []"
    using Cons.prems by simp
  from lineEntries_layout[OF this, of off ?n 1] have
    a: "off \<le> snd ?r" "offsetsIncreasing (fst ?r)" "separated (fst ?r)"
       "\<forall>e\<in>set (fst ?r). off \<le> offset e
            \<and> offset e + int (length (textContent (node e))) \<le> snd ?r"
    by simp_all
  have "\<forall>l\<in>set ls. \<forall>n. SpanElement n \<in> set (childNodes l) \<longrightarrow> textContent n \<noteq> []"
    using Cons.prems by simp
  from Cons.IH[OF this, of "snd ?r + 1"] have
    b: "offsetsIncreasing ?rest" "separated ?rest" "\<forall>e\<in>set ?rest. snd ?r + 1 \<le> offset e"
    by simp_all
  have cross: "offset x + int (length (textContent (node x))) < offset y"
    if "x \<in> set (fst ?r)" "y \<in> set ?rest" for x y
    using a(4) b(3) that by fastforce
  have c1: "offsetsIncreasing (fst ?r @ ?rest)"
    using a(2) b(1) cross by (fastforce simp: sorted_wrt_append)
  have c2: "separated (fst ?r @ ?rest)"
    using a(3) b(2) cross unfolding separated_def by (fastforce simp: sorted_wrt_append)
  have c3: "\<forall>e\<in>set (fst ?r @ ?rest). off \<le> offset e" using a(1,4) b(3) by fastforce
  show ?case unfolding eq using c1 c2 c3 by simp
qed

lemma constructor_invariants:
  assumes p: "parentElement n = Some d"
    and t: "\<forall>l\<in>set (lineSpans n). \<forall>m. SpanElement m \<in> set (normalizeChildren (childNodes l))
              \<longrightarrow> textContent m \<noteq> []"
  shows "\<exists>es. constructor toNumber n = Inr es \<and> offsetsIncreasing es \<and> separated es"
proof -
  let ?ls = "map (\<lambda>l. l\<lparr>childNodes := normalizeChildren (childNodes l)\<rparr>) (lineSpans n)"
  have "\<forall>l\<in>set ?ls. \<forall>m. SpanElement m \<in> set (childNodes l) \<longrightarrow> textContent m \<noteq> []"
    using t by auto
  from linesEntries_layout[OF this,
      of toNumber "case sourceOffset d of None \<Rightarrow> 0 | Some b \<Rightarrow> - int b"] p
  show ?thesis
    by (simp add: constructor_def initializeEntryPoints_def normalizeCodeRange_def)
qed

lemma split_separated:
  assumes "separated (pre @ e # post)" "offset e < off" "\<forall>x\<in>set post. off < offset x"
  shows "separated (pre @ truncated e off # newEntry e off # post)"
  using assms unfolding separated_def by (fastforce simp: sorted_wrt_append)

lemma ensureBoundary_separated:
  assumes inc: "offsetsIncreasing es" and sep: "separated es"
    and r: "ensureBoundary es x = Inr es'"
  shows "separated es'"
proof (cases x)
  case Infinity
  with r sep show ?thesis by simp
next
  case (Fin k)
  with ensureBoundary_Inr_notBefore[OF r] have "es \<noteq> []" "offset (hd es) \<le> k" by auto
  with inc show ?thesis
  proof (cases rule: ensureBoundary_cases)
    case beyond
    with r Fin sep show ?thesis by simp
  next
    case (exact pre e post)
    with r Fin sep show ?thesis by simp
  next
    case (split pre e post)
    with r Fin have "es' = pre @ truncated e k # newEntry e k # post" by simp
    with split_separated[of pre e post k] sep split(1,2,4) show ?thesis by simp
  qed
qed

lemma ensureExactSpan_separated:
  assumes inc: "offsetsIncreasing es" and sep: "separated es"
  shows "separated (snd (ensureExactSpan es start stop))"
proof (cases rule: ensureExactSpan_cases[of es start stop])
  case (throw1 err)
  with sep show ?thesis by simp
next
  case (throw2 es1 err)
  with ensureBoundary_separated[OF inc sep throw2(1)] show ?thesis by simp
next
  case (both es1 es2)
  note s1 = ensureBoundary_separated[OF inc sep both(1)]
  note i1 = ensureBoundary_props(1)[OF inc both(1)]
  from ensureBoundary_separated[OF i1 s1 both(2)] both(3) show ?thesis by simp
qed

lemma updateClasses_layout:
  "map offset (snd (updateClasses f T sel es)) = map offset es
   \<and> map (\<lambda>e. textContent (node e)) (snd (updateClasses f T sel es)) =
       map (\<lambda>e. textContent (node e)) es"
proof (induction sel arbitrary: es)
  case Nil
  then show ?case by simp
next
  case (Cons i sel)
  have same: "map g (es[nat i := setTokens ts (es ! nat i)]) = map g es"
    if g: "\<And>e. g (setTokens ts e) = g e"
    for g :: "'a entryPoint \<Rightarrow> 'b" and ts
  proof (rule nth_equalityI)
    show "length (map g (es[nat i := setTokens ts (es ! nat i)])) = length (map g es)" by simp
    fix k assume "k < length (map g (es[nat i := setTokens ts (es ! nat i)]))"
    then show "map g (es[nat i := setTokens ts (es ! nat i)]) ! k = map g es ! k"
      by (cases "k = nat i") (simp_all add: g)
  qed
  have upd: "map offset (es[nat i := setTokens ts (es ! nat i)]) = map offset es"
    "map (\<lambda>e. textContent (node e)) (es[nat i := setTokens ts (es ! nat i)]) =
       map (\<lambda>e. textContent (node e)) es" for ts
    by (rule same, simp)+
  show ?case
  proof (cases "T = []")
    case True
    then have "updateClasses f T (i # sel) es = updateClasses f T sel es" by simp
    with Cons.IH[of es] show ?thesis by simp
  next
    case ne: False
    show ?thesis
    proof (cases "0 \<le> i \<and> i < int (length es)")
      case True
      obtain err ts where r: "f T (tokenSet (node (es ! nat i))) = (err, ts)"
        by (cases "f T (tokenSet (node (es ! nat i)))")
      let ?es = "es[nat i := setTokens ts (es ! nat i)]"
      show ?thesis
      proof (cases err)
        case (Some x)
        then have "updateClasses f T (i # sel) es = (Some x, ?es)" using True ne r by simp
        with upd[of ts] show ?thesis by simp
      next
        case None
        then have "updateClasses f T (i # sel) es = updateClasses f T sel ?es"
          using True ne r by simp
        with Cons.IH[of ?es] upd[of ts] show ?thesis by simp
      qed
    next
      case False
      then show ?thesis using ne by auto
    qed
  qed
qed

lemma layout_invariants:
  assumes o: "map offset es' = map offset es"
    and t: "map (\<lambda>e. textContent (node e)) es' = map (\<lambda>e. textContent (node e)) es"
  shows "offsetsIncreasing es' = offsetsIncreasing es" and "separated es' = separated es"
    and "docText es' = docText es"
proof -
  show "offsetsIncreasing es' = offsetsIncreasing es" using o by simp
  show "docText es' = docText es" using t by (simp add: docText_def)
  have len: "length es' = length es" using o by (rule map_eq_imp_length_eq)
  have nth: "offset (es' ! k) = offset (es ! k)
      \<and> textContent (node (es' ! k)) = textContent (node (es ! k))" if "k < length es" for k
    using arg_cong[OF o, of "\<lambda>xs. xs ! k"] arg_cong[OF t, of "\<lambda>xs. xs ! k"] that len by simp
  show "separated es' = separated es"
    unfolding separated_def sorted_wrt_iff_nth_less using len nth by auto
qed

lemma operations_keep_invariants:
  assumes inc: "offsetsIncreasing es"
  shows "offsetsIncreasing (snd (ensureExactSpan es start stop))"
    and "offsetsIncreasing (snd (decorateSpan es start stop T))"
    and "offsetsIncreasing (snd (clearSpan es start stop T))"
    and "separated es \<Longrightarrow> separated (snd (ensureExactSpan es start stop))"
    and "separated es \<Longrightarrow> separated (snd (decorateSpan es start stop T))"
    and "separated es \<Longrightarrow> separated (snd (clearSpan es start stop T))"
    and "docText (snd (decorateSpan es start stop T)) = docText es"
    and "docText (snd (clearSpan es start stop T)) = docText es"
proof -
  let ?es1 = "snd (ensureExactSpan es start stop)"
  note p = ensureExactSpan_props[OF inc refl, of start stop]
  from decorateSpan_store[of es start stop T] obtain sel where
    d: "snd (decorateSpan es start stop T) = snd (updateClasses addClasses T sel ?es1)"
    by blast
  from clearSpan_store[of es start stop T] obtain sel' where
    c: "snd (clearSpan es start stop T) = snd (updateClasses removeClasses T sel' ?es1)"
    by blast
  note ld = layout_invariants[OF updateClasses_layout[of addClasses T sel ?es1, THEN conjunct1]
      updateClasses_layout[of addClasses T sel ?es1, THEN conjunct2]]
  note lc = layout_invariants[OF updateClasses_layout[of removeClasses T sel' ?es1, THEN conjunct1]
      updateClasses_layout[of removeClasses T sel' ?es1, THEN conjunct2]]
  show "offsetsIncreasing ?es1" by (rule p(1))
  show "offsetsIncreasing (snd (decorateSpan es start stop T))" unfolding d ld(1) by (rule p(1))
  show "offsetsIncreasing (snd (clearSpan es start stop T))" unfolding c lc(1) by (rule p(1))
  show "docText (snd (decorateSpan es start stop T)) = docText es" unfolding d ld(3) by (rule p(2))
  show "docText (snd (clearSpan es start stop T)) = docText es" unfolding c lc(3) by (rule p(2))
  assume sep: "separated es"
  note s1 = ensureExactSpan_separated[OF inc sep, of start stop]
  show "separated ?es1" by (rule s1)
  show "separated (snd (decorateSpan es start stop T))" unfolding d ld(2) by (rule s1)
  show "separated (snd (clearSpan es start stop T))" unfolding c lc(2) by (rule s1)
qed

section \<open>Lines recorded by the builder\<close>

lemma lineEntries_lines:
  "map line (fst (lineEntries ln cs off col)) = replicate (length (filter isSpan cs)) ln"
  by (induction ln cs off col rule: lineEntries.induct) (auto simp: Let_def split: prod.splits)

lemma linesEntries_lines:
  "map line (linesEntries toNumber ls off) =
   concat (map (\<lambda>l. replicate (length (filter isSpan (childNodes l)))
                               (toNumber (lastComponent (idAttr l)))) ls)"
proof (induction ls arbitrary: off)
  case Nil
  then show ?case by simp
next
  case (Cons l ls)
  obtain r off' where r: "lineEntries (toNumber (lastComponent (idAttr l))) (childNodes l) off 1 = (r, off')"
    by (cases "lineEntries (toNumber (lastComponent (idAttr l))) (childNodes l) off 1")
  have "map line r = replicate (length (filter isSpan (childNodes l))) (toNumber (lastComponent (idAttr l)))"
    using lineEntries_lines[of "toNumber (lastComponent (idAttr l))" "childNodes l" off 1] r by simp
  with Cons.IH[of "off' + 1"] r show ?case by (simp add: Let_def)
qed

section \<open>Claims about lookup and position translation\<close>

text \<open>
  Claim C1, as stated, fails. In the document \<open>ab / cd\<close> the offset 2 is the implicit line
  break: no segment's range contains it, yet \<^verbatim>\<open>locateEntry(2)\<close> returns the segment \<open>b\<close>
  that precedes it. And for the negative offset \<open>-1\<close> the result is not "not found".
\<close>

theorem locateEntry_claim_counterexample:
  "locateEntry twoLines (Fin 2) = Inr (Some \<lparr>entry = Some (seg 1 1 2 ''b'' []), index = 1\<rparr>)
   \<and> \<not> inRange (seg 1 1 2 ''b'' []) 2
   \<and> locateEntry twoLines (Fin (- 1)) \<noteq> Inr None"
  by (simp add: twoLines_def seg_def inRange_def)

text \<open>
  Claim C1, amended. In a store that is not empty, whose offsets increase strictly and whose
  segments do not overlap: \<^verbatim>\<open>locateEntry\<close> returns "not found" for \<^verbatim>\<open>Infinity\<close> and for
  every offset at or past the end of the last segment's range; it returns the segment whose
  half-open range contains the offset, with its index, whenever there is one; and for every
  offset from the first segment's offset up to the end of the document it returns the last
  segment that begins at or before the offset (for an offset in the gap that a line break
  leaves, the segment before the gap). Offsets before the first segment are left out.
\<close>

theorem locateEntry_amended:
  assumes inc: "offsetsIncreasing es" and sep: "separated es" and ne: "es \<noteq> []"
  shows "locateEntry es Infinity = Inr None
    \<and> (docEnd es \<le> off \<longrightarrow> locateEntry es (Fin off) = Inr None)
    \<and> (\<forall>i<length es. inRange (es ! i) off \<longrightarrow>
          locateEntry es (Fin off) = Inr (Some \<lparr>entry = Some (es ! i), index = int i\<rparr>))
    \<and> (offset (hd es) \<le> off \<and> off < docEnd es \<longrightarrow>
          (\<exists>i<length es.
             locateEntry es (Fin off) = Inr (Some \<lparr>entry = Some (es ! i), index = int i\<rparr>)
             \<and> offset (es ! i) \<le> off
             \<and> (\<forall>j<length es. i < j \<longrightarrow> off < offset (es ! j))))"
proof -
  have first: "offset (hd es) \<le> offset x" if "x \<in> set es" for x
    using inc that ne by (cases es) (auto simp: less_imp_le)
  have A: "docEnd es \<le> off \<Longrightarrow> locateEntry es (Fin off) = Inr None"
  proof -
    assume d: "docEnd es \<le> off"
    have "last es \<in> set es" using ne by simp
    then have "offset (hd es) \<le> offset (last es)" by (rule first)
    also have "\<dots> \<le> docEnd es" by (simp add: docEnd_def)
    finally have le: "offset (hd es) \<le> off" using d by simp
    from inc ne le show ?thesis by (cases rule: ensureBoundary_cases) (use d in auto)
  qed
  have D: "\<exists>i<length es.
             locateEntry es (Fin off) = Inr (Some \<lparr>entry = Some (es ! i), index = int i\<rparr>)
             \<and> offset (es ! i) \<le> off
             \<and> (\<forall>j<length es. i < j \<longrightarrow> off < offset (es ! j))"
    if le: "offset (hd es) \<le> off" and lt: "off < docEnd es"
  proof -
    from store_decomp[OF inc ne le] obtain pre e post where
      d: "es = pre @ e # post" "offset e \<le> off" "\<forall>x\<in>set pre. offset x < offset e"
         "\<forall>x\<in>set post. off < offset x" by blast
    have "\<not> (post = [] \<and> \<not> off < offset e + int (length (textContent (node e))))"
      using lt d(1) by (auto simp: docEnd_decomp)
    with locateEntry_decomp[OF d] have
      l: "locateEntry es (Fin off) = Inr (Some \<lparr>entry = Some e, index = int (length pre)\<rparr>)"
      by auto
    have "\<forall>j<length es. length pre < j \<longrightarrow> off < offset (es ! j)"
      using d(1,4) by (auto simp: nth_append nth_Cons split: nat.splits)
    with l d(1,2) show ?thesis by (intro exI[of _ "length pre"]) simp
  qed
  have C: "locateEntry es (Fin off) = Inr (Some \<lparr>entry = Some (es ! i), index = int i\<rparr>)"
    if i: "i < length es" and r: "inRange (es ! i) off" for i
  proof -
    have le: "offset (hd es) \<le> off" using first[of "es ! i"] i r by (auto simp: inRange_def)
    from store_decomp[OF inc ne le] obtain pre e post where
      d: "es = pre @ e # post" "offset e \<le> off" "\<forall>x\<in>set pre. offset x < offset e"
         "\<forall>x\<in>set post. off < offset x" by blast
    have "\<not> i < length pre"
    proof
      assume "i < length pre"
      then have "es ! i \<in> set pre" using d(1) by (simp add: nth_append)
      from separated_prefix_le[OF _ this, of e post] sep d(1,2) r
      show False by (auto simp: inRange_def)
    qed
    moreover have "\<not> length pre < i"
    proof
      assume "length pre < i"
      then have "es ! i \<in> set post" using d(1) i
        by (auto simp: nth_append nth_Cons split: nat.splits)
      with d(4) r show False by (auto simp: inRange_def)
    qed
    ultimately have eq: "i = length pre" by simp
    then have "es ! i = e" using d(1) by simp
    with locateEntry_decomp[OF d] eq r show ?thesis by (auto simp: inRange_def)
  qed
  from A C D show ?thesis by simp
qed

text \<open>The amended claim at the document \<open>ab / cd\<close>: past the end, inside \<open>c\<close>, and on
  the line break.\<close>

theorem locateEntry_amended_witness:
  "offsetsIncreasing twoLines \<and> separated twoLines \<and> twoLines \<noteq> []
   \<and> locateEntry twoLines Infinity = Inr None
   \<and> locateEntry twoLines (Fin 5) = Inr None
   \<and> locateEntry twoLines (Fin 3) = Inr (Some \<lparr>entry = Some (twoLines ! 2), index = 2\<rparr>)"
proof -
  have h: "offsetsIncreasing twoLines" "separated twoLines" "twoLines \<noteq> []"
    by (simp_all add: twoLines_def seg_def separated_def)
  have d: "docEnd twoLines \<le> 5" by (simp add: twoLines_def seg_def docEnd_def)
  have r: "(2::nat) < length twoLines" "inRange (twoLines ! 2) 3"
    by (simp_all add: twoLines_def seg_def inRange_def)
  from locateEntry_amended[OF h, of 5] d
  have "locateEntry twoLines Infinity = Inr None \<and> locateEntry twoLines (Fin 5) = Inr None"
    by simp
  moreover from
    locateEntry_amended[OF h, of 3, THEN conjunct2, THEN conjunct2, THEN conjunct1,
      rule_format, OF r]
  have "locateEntry twoLines (Fin 3) = Inr (Some \<lparr>entry = Some (twoLines ! 2), index = 2\<rparr>)"
    by simp
  ultimately show ?thesis using h by simp
qed

text \<open>
  Claim C6. When \<^verbatim>\<open>locateEntry\<close> finds a segment \<open>e\<close> for the offset,
  \<^verbatim>\<open>offsetToLineColumn\<close> returns the line of \<open>e\<close> and the column
  \<open>column e + (offset - offset e)\<close>. When nothing is found (the offset is past the end of the
  last segment, or \<^verbatim>\<open>Infinity\<close>) it returns the line of the last segment and the column
  \<open>column last + min (length (text last)) (offset - offset last)\<close>.
\<close>

theorem offsetToLineColumn_spec:
  "(locateEntry es off = Inr (Some r) \<and> entry r = Some e \<longrightarrow>
      (\<exists>k. off = Fin k \<and>
           offsetToLineColumn es off = Inr (line e, Fin (column e + (k - offset e)))))
   \<and> (locateEntry es off = Inr None \<and> es \<noteq> [] \<longrightarrow>
      offsetToLineColumn es off =
        Inr (line (last es),
             Fin (column (last es) +
                  Math_min (int (length (textContent (node (last es)))))
                           (jsnum_minus off (offset (last es))))))"
  by (cases off) (auto simp: offsetToLineColumn_def Let_def)

text \<open>Claim C6 at the document \<open>ab / cd\<close>: the offset of \<open>d\<close>, an offset past the end,
  and \<^verbatim>\<open>Infinity\<close>.\<close>

theorem offsetToLineColumn_spec_witness:
  "offsetToLineColumn twoLines (Fin 4) = Inr (Num 2, Fin 2)
   \<and> offsetToLineColumn twoLines (Fin 10) = Inr (Num 2, Fin 3)
   \<and> offsetToLineColumn twoLines Infinity = Inr (Num 2, Fin 3)"
proof -
  let ?d = "seg 4 2 2 ''d'' []"
  have f: "locateEntry twoLines (Fin 4) = Inr (Some \<lparr>entry = Some ?d, index = 3\<rparr>)"
    by (simp add: twoLines_def seg_def)
  have n: "locateEntry twoLines (Fin 10) = Inr None" "locateEntry twoLines Infinity = Inr None"
    "twoLines \<noteq> []" by (simp_all add: twoLines_def seg_def)
  have l: "last twoLines = ?d" by (simp add: twoLines_def)
  from offsetToLineColumn_spec[of twoLines "Fin 4" "\<lparr>entry = Some ?d, index = 3\<rparr>" ?d] f
  have "offsetToLineColumn twoLines (Fin 4) = Inr (Num 2, Fin 2)" by (simp add: seg_def)
  moreover from offsetToLineColumn_spec[of twoLines "Fin 10"] n l
  have "offsetToLineColumn twoLines (Fin 10) = Inr (Num 2, Fin 3)" by (simp add: seg_def)
  moreover from offsetToLineColumn_spec[of twoLines Infinity] n l
  have "offsetToLineColumn twoLines Infinity = Inr (Num 2, Fin 3)" by (simp add: seg_def)
  ultimately show ?thesis by simp
qed

text \<open>
  Claim C10. For every offset strictly smaller than the offset of the first segment,
  \<^verbatim>\<open>locateEntry\<close> returns a result object whose \<^verbatim>\<open>entry\<close> is \<^verbatim>\<open>undefined\<close> and whose
  index is \<open>-1\<close>, not "not found"; \<^verbatim>\<open>offsetToLineColumn\<close> then throws a TypeError.
\<close>

theorem locateEntry_before_first:
  "es \<noteq> [] \<Longrightarrow> off < offset (hd es) \<Longrightarrow>
   locateEntry es (Fin off) = Inr (Some \<lparr>entry = None, index = - 1\<rparr>)
   \<and> offsetToLineColumn es (Fin off) = Inl TypeError"
  by (cases es) (auto simp: offsetToLineColumn_def)

text \<open>Claim C10 at the document \<open>ab / cd\<close> and the offset \<open>-1\<close>.\<close>

theorem locateEntry_before_first_witness:
  "twoLines \<noteq> [] \<and> - 1 < offset (hd twoLines)
   \<and> locateEntry twoLines (Fin (- 1)) = Inr (Some \<lparr>entry = None, index = - 1\<rparr>)
   \<and> offsetToLineColumn twoLines (Fin (- 1)) = Inl TypeError"
  using locateEntry_before_first[of twoLines "- 1"] by (simp add: twoLines_def seg_def)

section \<open>Claims about splitting\<close>

text \<open>
  Claim C2 at a start boundary before the first segment. The store is the single segment
  \<open>abcd\<close> at offset 0. \<^verbatim>\<open>ensureExactSpan(-1, 2)\<close> throws a TypeError at the start
  boundary (\<^verbatim>\<open>locateEntry(-1)\<close> returns an object whose \<^verbatim>\<open>entry\<close> is \<^verbatim>\<open>undefined\<close>) and
  leaves the store as it was: the end boundary 2 lies inside the segment, and no segment
  begins at 2 after the call.
\<close>

theorem ensureExactSpan_before_first:
  "ensureExactSpan oneSegment (Fin (- 1)) (Fin 2) = (Some TypeError, oneSegment)
   \<and> inRange (hd oneSegment) 2 \<and> 2 \<notin> offset ` set oneSegment"
  by (simp add: run_defs inRange_def)

text \<open>
  Claim C3. In a store with strictly increasing offsets, every boundary step of
  \<^verbatim>\<open>ensureExactSpan\<close> (a split, or nothing) and the whole call, whether it completes or
  throws, leave the concatenation of the segment texts and hence its length unchanged, and
  leave the offsets strictly increasing and unique.
\<close>

theorem split_preserves_text_and_order:
  assumes inc: "offsetsIncreasing es"
  shows "(\<forall>es1. ensureBoundary es x = Inr es1 \<longrightarrow>
            docText es1 = docText es \<and> offsetsIncreasing es1 \<and> distinct (map offset es1))
       \<and> docText (snd (ensureExactSpan es start stop)) = docText es
       \<and> length (docText (snd (ensureExactSpan es start stop))) = length (docText es)
       \<and> offsetsIncreasing (snd (ensureExactSpan es start stop))
       \<and> distinct (map offset (snd (ensureExactSpan es start stop)))"
proof -
  have one: "docText es1 = docText es \<and> offsetsIncreasing es1 \<and> distinct (map offset es1)"
    if "offsetsIncreasing es0" "ensureBoundary es0 y = Inr es1" "docText es0 = docText es"
    for es0 es1 :: "'a entryPoint list" and y
    using ensureBoundary_props(1,2)[OF that(1,2)] that(3)
    by (simp add: strict_sorted_iff)
  have two: "docText (snd (ensureExactSpan es start stop)) = docText es
       \<and> offsetsIncreasing (snd (ensureExactSpan es start stop))
       \<and> distinct (map offset (snd (ensureExactSpan es start stop)))"
  proof (cases rule: ensureExactSpan_cases[of es start stop])
    case (throw1 err)
    then show ?thesis using inc by (simp add: strict_sorted_iff)
  next
    case (throw2 es1 err)
    with one[OF inc throw2(1)] show ?thesis by simp
  next
    case (both es1 es2)
    from one[OF inc both(1)] have "offsetsIncreasing es1" "docText es1 = docText es" by simp_all
    from one[OF this(1) both(2) this(2)] both(3) show ?thesis by simp
  qed
  from one[OF inc _ refl] two show ?thesis by simp
qed

text \<open>Claim C3 at the segment \<open>abcd\<close>, split at 1 and 3.\<close>

theorem split_preserves_text_and_order_witness:
  "offsetsIncreasing oneSegment
   \<and> docText (snd (ensureExactSpan oneSegment (Fin 1) (Fin 3))) = ''abcd''
   \<and> length (snd (ensureExactSpan oneSegment (Fin 1) (Fin 3))) = 3
   \<and> offsetsIncreasing (snd (ensureExactSpan oneSegment (Fin 1) (Fin 3)))"
proof -
  have h: "offsetsIncreasing oneSegment" by (simp add: oneSegment_def seg_def)
  have e: "length (snd (ensureExactSpan oneSegment (Fin 1) (Fin 3))) = 3"
    by (simp add: run_defs)
  have d: "docText oneSegment = ''abcd''" by (simp add: docText_def oneSegment_def seg_def)
  from split_preserves_text_and_order[OF h, of "Fin 1" "Fin 1" "Fin 3"] d e h
  show ?thesis by simp
qed

text \<open>
  Claim C7. In a store with strictly increasing offsets, a second call of
  \<^verbatim>\<open>ensureExactSpan\<close> with the same arguments, on the store that the first call has
  left, has the same outcome and leaves that store as it is: no segment is added and no
  text or offset changes.
\<close>

theorem ensureExactSpan_idempotent:
  assumes inc: "offsetsIncreasing es"
  shows "ensureExactSpan (snd (ensureExactSpan es start stop)) start stop =
         ensureExactSpan es start stop"
proof (cases rule: ensureExactSpan_cases[of es start stop])
  case (throw1 err)
  then show ?thesis by (simp add: ensureExactSpan_def)
next
  case (throw2 es1 err)
  from ensureBoundary_idem[OF inc throw2(1)] throw2 show ?thesis
    by (simp add: ensureExactSpan_def)
next
  case (both es1 es2)
  note inc1 = ensureBoundary_props(1)[OF inc both(1)]
  have a: "ensureBoundary es1 start = Inr es1" by (rule ensureBoundary_idem[OF inc both(1)])
  have b: "ensureBoundary es2 start = Inr es2"
    by (rule ensureBoundary_settled_preserved[OF inc1 a both(2)])
  have c: "ensureBoundary es2 stop = Inr es2" by (rule ensureBoundary_idem[OF inc1 both(2)])
  from b c both(3) show ?thesis by (simp add: ensureExactSpan_def)
qed

text \<open>Claim C7 at the segment \<open>abcd\<close>, split at 1 and 3.\<close>

theorem ensureExactSpan_idempotent_witness:
  "offsetsIncreasing oneSegment
   \<and> ensureExactSpan oneSegment (Fin 1) (Fin 3) =
       (None, [seg 0 1 1 ''a'' [''x''], seg 1 1 2 ''bc'' [''x''], seg 3 1 4 ''d'' [''x'']])
   \<and> ensureExactSpan [seg 0 1 1 ''a'' [''x''], seg 1 1 2 ''bc'' [''x''], seg 3 1 4 ''d'' [''x'']]
         (Fin 1) (Fin 3) =
       (None, [seg 0 1 1 ''a'' [''x''], seg 1 1 2 ''bc'' [''x''], seg 3 1 4 ''d'' [''x'']])"
proof -
  have h: "offsetsIncreasing oneSegment" by (simp add: oneSegment_def seg_def)
  have e: "ensureExactSpan oneSegment (Fin 1) (Fin 3) =
       (None, [seg 0 1 1 ''a'' [''x''], seg 1 1 2 ''bc'' [''x''], seg 3 1 4 ''d'' [''x'']])"
    by (simp add: run_defs)
  from ensureExactSpan_idempotent[OF h, of "Fin 1" "Fin 3"] e h show ?thesis by simp
qed

section \<open>Claims about index construction\<close>

text \<open>
  Claim C8, as stated, fails. The line identifier \<open>cb1-title\<close> has no line number;
  the builder does not fail, and both segments of the line carry the line \<^verbatim>\<open>NaN\<close>.
\<close>

theorem constructor_claim_counterexample:
  "constructor Number_js untitledBlock =
     Inr [\<lparr>offset = 0, line = NaN, column = 1, node = \<lparr>textContent = ''x'', tokenSet = []\<rparr>\<rparr>,
          \<lparr>offset = 1, line = NaN, column = 2,
             node = \<lparr>textContent = ''y'', tokenSet = [Abs_token ''kw'']\<rparr>\<rparr>]"
  by (simp add: constructor_def initializeEntryPoints_def normalizeCodeRange_def untitledBlock_def
      lastComponent_def Number_js_def isDigit_def inNoNumericLiteral_def)

text \<open>
  Claim C8, amended. The builder has no check of line identifiers: for a \<^verbatim>\<open>code\<close>
  element that has a parent, and whatever \<^verbatim>\<open>Number\<close> yields, construction returns a
  store, and every segment built from a line records the value of \<^verbatim>\<open>Number\<close> at the
  last component of the line's identifier, \<^verbatim>\<open>NaN\<close> included.
\<close>

theorem constructor_records_conversion:
  "parentElement n = Some d \<Longrightarrow>
   (\<exists>es. constructor toNumber n = Inr es \<and>
     map line es =
       concat (map (\<lambda>l. replicate (length (filter isSpan (normalizeChildren (childNodes l))))
                                   (toNumber (lastComponent (idAttr l))))
                   (lineSpans n)))"
  by (simp add: constructor_def initializeEntryPoints_def normalizeCodeRange_def
      linesEntries_lines comp_def)

text \<open>Claim C8, amended, at the block whose line identifier is \<open>cb1-title\<close>.\<close>

theorem constructor_records_conversion_witness:
  "parentElement untitledBlock = Some \<lparr>sourceOffset = None\<rparr>
   \<and> (\<exists>es. constructor Number_js untitledBlock = Inr es \<and> map line es = [NaN, NaN])"
  using constructor_records_conversion[of untitledBlock "\<lparr>sourceOffset = None\<rparr>" Number_js]
  by (simp add: untitledBlock_def lastComponent_def Number_js_def isDigit_def
      inNoNumericLiteral_def)

section \<open>Claims about decoration\<close>

text \<open>
  Claim C4, as stated, fails. With \<open>start = end = 2\<close> on the single segment \<open>abcd\<close>,
  \<^verbatim>\<open>decorateSpan\<close> and \<^verbatim>\<open>clearSpan\<close> split the segment into \<open>ab\<close> and \<open>cd\<close>.
\<close>

theorem empty_range_claim_counterexample:
  "decorateSpan oneSegment (Fin 2) (Fin 2) [''hl''] =
     (None, [seg 0 1 1 ''ab'' [''x''], seg 2 1 3 ''cd'' [''x'']])
   \<and> clearSpan oneSegment (Fin 2) (Fin 2) [''hl''] =
     (None, [seg 0 1 1 ''ab'' [''x''], seg 2 1 3 ''cd'' [''x'']])
   \<and> oneSegment = [seg 0 1 1 ''abcd'' [''x'']]"
  by (simp add: run_defs)

text \<open>
  Claim C4, amended. In a store with strictly increasing offsets, for every
  \<open>start \<ge> end\<close> with \<open>end\<close> strictly after the first segment's offset (or
  \<^verbatim>\<open>Infinity\<close>) and every list of tags: \<^verbatim>\<open>decorateSpan\<close> and \<^verbatim>\<open>clearSpan\<close> return
  normally and do exactly what \<^verbatim>\<open>ensureExactSpan(start, end)\<close> does. Segments are split at
  the two boundaries, the text is unchanged, and every segment carries the tags that were in
  effect at its offset before the call. Ranges that end at or before the first segment's
  offset are left out.
\<close>

theorem empty_range_amended:
  assumes inc: "offsetsIncreasing es" and af: "afterFirst es stop" and ge: "jsnum_le stop start"
  shows "fst (ensureExactSpan es start stop) = None
    \<and> decorateSpan es start stop T = ensureExactSpan es start stop
    \<and> clearSpan es start stop T = ensureExactSpan es start stop
    \<and> docText (snd (ensureExactSpan es start stop)) = docText es
    \<and> (\<forall>e\<in>set (snd (ensureExactSpan es start stop)).
          set (classList (node e)) = tagsAt es (offset e))"
proof -
  note nb = afterFirst_le_notBefore[OF af ge]
  from ensureExactSpan_total[OF inc nb afterFirst_notBefore[OF af]] obtain es2 where
    e: "ensureExactSpan es start stop = (None, es2)" by blast
  note p = ensureExactSpan_props[OF inc, of es2 start stop]
  have "\<forall>x\<in>set es2. \<not> selected start stop (docEnd es) x"
    by (simp add: selected_never[OF ge])
  from spanSelection_empty[OF inc nb af e this]
  have sel: "spanSelection es start stop = (None, es2, [])" .
  have d: "decorateSpan es start stop T = (None, es2)"
    using sel by (simp add: decorateSpan_def)
  have c: "clearSpan es start stop T = (None, es2)"
    using sel by (simp add: clearSpan_selection)
  have t: "\<forall>e\<in>set es2. set (classList (node e)) = tagsAt es (offset e)"
    using tagsAt_member[of es2] p(1,3) e by simp
  from e d c t p(2) show ?thesis by simp
qed

text \<open>Claim C4, amended, at the segment \<open>abcd\<close> with \<open>start = end = 2\<close>.\<close>

theorem empty_range_amended_witness:
  "offsetsIncreasing oneSegment \<and> afterFirst oneSegment (Fin 2) \<and> jsnum_le (Fin 2) (Fin 2)
   \<and> decorateSpan oneSegment (Fin 2) (Fin 2) [''hl''] = ensureExactSpan oneSegment (Fin 2) (Fin 2)
   \<and> clearSpan oneSegment (Fin 2) (Fin 2) [''hl''] = ensureExactSpan oneSegment (Fin 2) (Fin 2)
   \<and> docText (snd (ensureExactSpan oneSegment (Fin 2) (Fin 2))) = ''abcd''"
proof -
  have h: "offsetsIncreasing oneSegment" "afterFirst oneSegment (Fin 2)"
    "jsnum_le (Fin 2) (Fin 2)" by (simp_all add: oneSegment_def seg_def)
  have d: "docText oneSegment = ''abcd''" by (simp add: docText_def oneSegment_def seg_def)
  from empty_range_amended[OF h, of "[''hl'']"] h d show ?thesis by simp
qed

text \<open>
  Claim C5, as stated, fails. The segment \<open>abcd\<close> carries the tag \<open>x\<close>. After
  \<^verbatim>\<open>decorateSpan(1, 3, ["x"])\<close> and \<^verbatim>\<open>clearSpan(1, 3, ["x"])\<close> the segment \<open>bc\<close> of
  the range has no tag: the tag it had before the decoration is gone.
\<close>

theorem inverse_claim_counterexample:
  "snd (clearSpan (snd (decorateSpan oneSegment (Fin 1) (Fin 3) [''x''])) (Fin 1) (Fin 3) [''x''])
     = [seg 0 1 1 ''a'' [''x''], seg 1 1 2 ''bc'' [], seg 3 1 4 ''d'' [''x'']]
   \<and> oneSegment = [seg 0 1 1 ''abcd'' [''x'']]
   \<and> tagsAt oneSegment 1 = {''x''}"
  by (simp add: run_defs tagsAt_def)

text \<open>
  Claim C5, amended. In a store with strictly increasing offsets, for every range
  \<open>start < end\<close> whose start is not before the first segment, and every list \<open>T\<close> of tags
  that are class tokens (not empty, no ASCII white space, which is what \<^verbatim>\<open>classList\<close>
  accepts): \<^verbatim>\<open>decorateSpan\<close> returns normally and so does the \<^verbatim>\<open>clearSpan\<close> that follows
  it, the segments are those that \<^verbatim>\<open>ensureExactSpan(start, end)\<close> leaves (same offsets, same
  texts), every segment selected by the range ends with the tags that were in effect at its
  offset before the decoration minus \<open>T\<close> (so with exactly those tags when none of them is
  in \<open>T\<close>), and every other segment ends with exactly the tags that were in effect at its
  offset.
\<close>

theorem decorate_then_clear:
  assumes inc: "offsetsIncreasing es" and nb: "notBefore es start"
    and lt: "jsnum_less start stop" and valid: "\<forall>c\<in>set T. validToken c"
  shows "fst (ensureExactSpan es start stop) = None
    \<and> fst (decorateSpan es start stop T) = None
    \<and> fst (clearSpan (snd (decorateSpan es start stop T)) start stop T) = None
    \<and> map offset (snd (clearSpan (snd (decorateSpan es start stop T)) start stop T)) =
        map offset (snd (ensureExactSpan es start stop))
    \<and> map (\<lambda>e. textContent (node e))
          (snd (clearSpan (snd (decorateSpan es start stop T)) start stop T)) =
        map (\<lambda>e. textContent (node e)) (snd (ensureExactSpan es start stop))
    \<and> (\<forall>e\<in>set (snd (clearSpan (snd (decorateSpan es start stop T)) start stop T)).
          set (classList (node e)) =
            (if selected start stop (docEnd es) e then tagsAt es (offset e) - set T
             else tagsAt es (offset e)))"
proof -
  note af = notBefore_less_afterFirst[OF nb lt]
  from ensureExactSpan_total[OF inc nb afterFirst_notBefore[OF af]] obtain es2 where
    e: "ensureExactSpan es start stop = (None, es2)" by blast
  note p = ensureExactSpan_props[OF inc, of es2 start stop]
  note st = ensureExactSpan_settled[OF inc e]
  let ?add = "\<lambda>ts. snd (addClasses T ts)"
  let ?rem = "\<lambda>ts. snd (removeClasses T ts)"
  let ?g = "\<lambda>e. if selected start stop (docEnd es) e then mapClasses ?add e else e"
  let ?es3 = "map ?g es2"
  have d: "decorateSpan es start stop T = (None, ?es3)"
    by (rule decorateSpan_char[OF valid inc nb af e])
  have inc2: "offsetsIncreasing es2" using p(1) e by simp
  have o3: "map offset ?es3 = map offset es2" by (simp add: comp_def if_distrib)
  have t3: "map (\<lambda>e. textContent (node e)) ?es3 = map (\<lambda>e. textContent (node e)) es2"
    by (simp add: comp_def if_distrib)
  have l3: "map (\<lambda>e. length (textContent (node e))) ?es3 =
            map (\<lambda>e. length (textContent (node e))) es2"
    by (simp add: comp_def if_distrib)
  have inc3: "offsetsIncreasing ?es3" unfolding o3 by (rule inc2)
  have s3: "ensureBoundary ?es3 start = Inr ?es3" "ensureBoundary ?es3 stop = Inr ?es3"
    using settled_transfer[OF inc2 st(1) o3 l3] settled_transfer[OF inc2 st(2) o3 l3]
    by simp_all
  then have e3: "ensureExactSpan ?es3 start stop = (None, ?es3)"
    by (simp add: ensureExactSpan_def)
  have nb3: "notBefore ?es3 start" using ensureBoundary_Inr_notBefore[OF s3(1)] .
  have af3: "afterFirst ?es3 stop" using nb3 lt by (rule notBefore_less_afterFirst)
  let ?h = "\<lambda>e. if selected start stop (docEnd ?es3) e then mapClasses ?rem e else e"
  have c: "clearSpan ?es3 start stop T = (None, map ?h ?es3)"
    by (rule clearSpan_char[OF valid inc3 nb3 af3 e3])
  have o4: "map offset (map ?h ?es3) = map offset es2" by (simp add: comp_def if_distrib)
  have t4: "map (\<lambda>e. textContent (node e)) (map ?h ?es3) = map (\<lambda>e. textContent (node e)) es2"
    by (simp add: comp_def if_distrib)
  have tags: "set (classList (node e4)) =
            (if selected start stop (docEnd es) e4 then tagsAt es (offset e4) - set T
             else tagsAt es (offset e4))" if m: "e4 \<in> set (map ?h ?es3)" for e4
  proof -
    from m obtain e2 where e2: "e2 \<in> set es2" "e4 = ?h (?g e2)" by auto
    then have ne2: "es2 \<noteq> []" by auto
    then have ne: "es \<noteq> []" using p(6) e by auto
    have de2: "docEnd es2 = docEnd es" using p(5)[OF _ ne] e by simp
    have "docEnd ?es3 = docEnd es2" using ne2 by (simp add: docEnd_def last_map)
    then have de3: "docEnd ?es3 = docEnd es" using de2 by simp
    have sg: "selected start stop (docEnd es) (?g e2) = selected start stop (docEnd es) e2"
      by (simp add: selected_def)
    have o: "offset e4 = offset e2" unfolding e2(2) by simp
    have s4: "selected start stop (docEnd es) e4 = selected start stop (docEnd es) e2"
      using o by (simp add: selected_def)
    have t2: "set (classList (node e2)) = tagsAt es (offset e2)"
      using tagsAt_member[OF inc2 e2(1)] p(3) e by simp
    show ?thesis
    proof (cases "selected start stop (docEnd es) e2")
      case True
      then have "e4 = mapClasses ?rem (mapClasses ?add e2)"
        unfolding e2(2) de3 using sg by simp
      then have "tokenSet (node e4) = ?rem (?add (tokenSet (node e2)))" by simp
      then have "set (classList (node e4)) =
          (set (classList (node e2)) \<union> set T) - set T"
        using removeClasses_valid[OF valid, of "?add (tokenSet (node e2))"]
          addClasses_valid[OF valid, of "tokenSet (node e2)"]
        by (simp add: classList_def)
      then have "set (classList (node e4)) = set (classList (node e2)) - set T" by auto
      with True s4 o t2 show ?thesis by simp
    next
      case False
      then have "e4 = e2" unfolding e2(2) de3 by simp
      with False t2 show ?thesis by simp
    qed
  qed
  from e d c o4 t4 tags show ?thesis by simp
qed

text \<open>Claim C5, amended, at the segment \<open>abcd\<close> with the tag \<open>x\<close>, the range
  \<open>[1, 3)\<close> and the tag \<open>hl\<close>.\<close>

theorem decorate_then_clear_witness:
  "offsetsIncreasing oneSegment \<and> notBefore oneSegment (Fin 1) \<and> jsnum_less (Fin 1) (Fin 3)
   \<and> validToken ''hl''
   \<and> fst (decorateSpan oneSegment (Fin 1) (Fin 3) [''hl'']) = None
   \<and> clearSpan (snd (decorateSpan oneSegment (Fin 1) (Fin 3) [''hl''])) (Fin 1) (Fin 3)
            [''hl'']
       = (None, [seg 0 1 1 ''a'' [''x''], seg 1 1 2 ''bc'' [''x''], seg 3 1 4 ''d'' [''x'']])
   \<and> selected (Fin 1) (Fin 3) (docEnd oneSegment) (seg 1 1 2 ''bc'' [''x''])
   \<and> set (classList (node (seg 1 1 2 ''bc'' [''x'']))) = tagsAt oneSegment 1 - set [''hl'']"
proof -
  have h: "offsetsIncreasing oneSegment" "notBefore oneSegment (Fin 1)"
    "jsnum_less (Fin 1) (Fin 3)" by (simp_all add: oneSegment_def seg_def)
  have v: "validToken ''hl''" by (simp add: validToken_def isAsciiWhitespace_def)
  then have vs: "\<forall>c\<in>set [''hl'']. validToken c" by simp
  have r: "clearSpan (snd (decorateSpan oneSegment (Fin 1) (Fin 3) [''hl''])) (Fin 1) (Fin 3)
            [''hl'']
       = (None, [seg 0 1 1 ''a'' [''x''], seg 1 1 2 ''bc'' [''x''], seg 3 1 4 ''d'' [''x'']])"
    by (simp add: run_defs)
  have s: "selected (Fin 1) (Fin 3) (docEnd oneSegment) (seg 1 1 2 ''bc'' [''x''])"
    by (simp add: selected_def docEnd_def oneSegment_def seg_def)
  have m: "seg 1 1 2 ''bc'' [''x''] \<in>
      set (snd (clearSpan (snd (decorateSpan oneSegment (Fin 1) (Fin 3) [''hl''])) (Fin 1) (Fin 3)
            [''hl'']))" unfolding r by simp
  have o: "offset (seg 1 1 2 ''bc'' [''x'']) = 1" by (simp add: seg_def)
  note inst = decorate_then_clear[OF h vs]
  from inst have f: "fst (decorateSpan oneSegment (Fin 1) (Fin 3) [''hl'']) = None" by simp
  from inst[THEN conjunct2, THEN conjunct2, THEN conjunct2, THEN conjunct2, THEN conjunct2,
      rule_format, OF m] s o
  have "set (classList (node (seg 1 1 2 ''bc'' [''x'']))) = tagsAt oneSegment 1 - set [''hl'']"
    by simp
  with h v f r s show ?thesis by simp
qed

text \<open>
  Claim C9. In a store with strictly increasing offsets, for every call of \<^verbatim>\<open>decorateSpan\<close>,
  whether it completes or throws: every segment of the store before the call is still
  there, at the same offset, with a superset of its tags, and every segment after the call
  (those created by a split included) has at least the tags that were in effect at its
  offset before the call. For \<^verbatim>\<open>clearSpan\<close> the same holds with subsets: it never adds a
  tag.
\<close>

theorem decorate_monotone_clear_antitone:
  assumes inc: "offsetsIncreasing es"
  shows "(\<forall>e\<in>set es. \<exists>e'\<in>set (snd (decorateSpan es start stop T)).
            offset e' = offset e \<and> set (classList (node e)) \<subseteq> set (classList (node e')))
       \<and> (\<forall>e'\<in>set (snd (decorateSpan es start stop T)).
            tagsAt es (offset e') \<subseteq> set (classList (node e')))
       \<and> (\<forall>e\<in>set es. \<exists>e'\<in>set (snd (clearSpan es start stop T)).
            offset e' = offset e \<and> set (classList (node e')) \<subseteq> set (classList (node e)))
       \<and> (\<forall>e'\<in>set (snd (clearSpan es start stop T)).
            set (classList (node e')) \<subseteq> tagsAt es (offset e'))"
proof -
  let ?es1 = "snd (ensureExactSpan es start stop)"
  from decorateSpan_store[of es start stop T] obtain sel where
    d: "snd (decorateSpan es start stop T) = snd (updateClasses addClasses T sel ?es1)"
    by blast
  from clearSpan_store[of es start stop T] obtain sel' where
    c: "snd (clearSpan es start stop T) = snd (updateClasses removeClasses T sel' ?es1)"
    by blast
  have ud: "length (snd (updateClasses addClasses T sel ?es1)) = length ?es1
    \<and> (\<forall>k<length ?es1. offset (snd (updateClasses addClasses T sel ?es1) ! k) = offset (?es1 ! k)
          \<and> set (tokenSet (node (?es1 ! k)))
              \<subseteq> set (tokenSet (node (snd (updateClasses addClasses T sel ?es1) ! k))))"
    by (rule updateClasses_rel[where R = "\<lambda>a b. set a \<subseteq> set b"])
       (auto simp: addClasses_keeps[THEN subsetD])
  have uc: "length (snd (updateClasses removeClasses T sel' ?es1)) = length ?es1
    \<and> (\<forall>k<length ?es1. offset (snd (updateClasses removeClasses T sel' ?es1) ! k) = offset (?es1 ! k)
          \<and> set (tokenSet (node (snd (updateClasses removeClasses T sel' ?es1) ! k)))
              \<subseteq> set (tokenSet (node (?es1 ! k))))"
    by (rule updateClasses_rel[where R = "\<lambda>a b. set b \<subseteq> set a"])
       (auto simp: removeClasses_adds_none[THEN subsetD])
  have mono: "set (map Rep_token a) \<subseteq> set (map Rep_token b)" if "set a \<subseteq> set b"
    for a b :: "token list" using that by auto
  from tags_through_update[where R = "\<lambda>a b. set a \<subseteq> set b" and Q = "\<lambda>A B. A \<subseteq> B",
      OF inc conjunct1[OF ud] conjunct2[OF ud] refl mono]
  have D: "(\<forall>e\<in>set es. \<exists>e'\<in>set (snd (decorateSpan es start stop T)).
            offset e' = offset e \<and> set (classList (node e)) \<subseteq> set (classList (node e')))
       \<and> (\<forall>e'\<in>set (snd (decorateSpan es start stop T)).
            tagsAt es (offset e') \<subseteq> set (classList (node e')))"
    unfolding d by simp
  from tags_through_update[where R = "\<lambda>a b. set b \<subseteq> set a" and Q = "\<lambda>A B. B \<subseteq> A",
      OF inc conjunct1[OF uc] conjunct2[OF uc] refl mono]
  have C: "(\<forall>e\<in>set es. \<exists>e'\<in>set (snd (clearSpan es start stop T)).
            offset e' = offset e \<and> set (classList (node e')) \<subseteq> set (classList (node e)))
       \<and> (\<forall>e'\<in>set (snd (clearSpan es start stop T)).
            set (classList (node e')) \<subseteq> tagsAt es (offset e'))"
    unfolding c by simp
  from D C show ?thesis by simp
qed

text \<open>Claim C9 at the segment \<open>abcd\<close> with the tag \<open>x\<close> and the range \<open>[1, 3)\<close>.\<close>

theorem decorate_monotone_clear_antitone_witness:
  "offsetsIncreasing oneSegment
   \<and> snd (decorateSpan oneSegment (Fin 1) (Fin 3) [''hl''])
       = [seg 0 1 1 ''a'' [''x''], seg 1 1 2 ''bc'' [''x'', ''hl''], seg 3 1 4 ''d'' [''x'']]
   \<and> tagsAt oneSegment 1 \<subseteq> set (classList (node (seg 1 1 2 ''bc'' [''x'', ''hl''])))
   \<and> snd (clearSpan oneSegment (Fin 1) (Fin 3) [''x''])
       = [seg 0 1 1 ''a'' [''x''], seg 1 1 2 ''bc'' [], seg 3 1 4 ''d'' [''x'']]
   \<and> set (classList (node (seg 1 1 2 ''bc'' []))) \<subseteq> tagsAt oneSegment 1"
proof -
  have h: "offsetsIncreasing oneSegment" by (simp add: oneSegment_def seg_def)
  have d: "snd (decorateSpan oneSegment (Fin 1) (Fin 3) [''hl''])
       = [seg 0 1 1 ''a'' [''x''], seg 1 1 2 ''bc'' [''x'', ''hl''], seg 3 1 4 ''d'' [''x'']]"
    by (simp add: run_defs)
  have c: "snd (clearSpan oneSegment (Fin 1) (Fin 3) [''x''])
       = [seg 0 1 1 ''a'' [''x''], seg 1 1 2 ''bc'' [], seg 3 1 4 ''d'' [''x'']]"
    by (simp add: run_defs)
  have md: "seg 1 1 2 ''bc'' [''x'', ''hl''] \<in> set (snd (decorateSpan oneSegment (Fin 1) (Fin 3) [''hl'']))"
    unfolding d by simp
  have mc: "seg 1 1 2 ''bc'' [] \<in> set (snd (clearSpan oneSegment (Fin 1) (Fin 3) [''x'']))"
    unfolding c by simp
  have o: "offset (seg 1 1 2 ''bc'' [''x'', ''hl'']) = 1" "offset (seg 1 1 2 ''bc'' []) = 1"
    by (simp_all add: seg_def)
  from decorate_monotone_clear_antitone[OF h, of "Fin 1" "Fin 3" "[''hl'']", THEN conjunct2,
      THEN conjunct1, rule_format, OF md] o
  have a: "tagsAt oneSegment 1 \<subseteq> set (classList (node (seg 1 1 2 ''bc'' [''x'', ''hl''])))"
    by simp
  from decorate_monotone_clear_antitone[OF h, of "Fin 1" "Fin 3" "[''x'']", THEN conjunct2,
      THEN conjunct2, THEN conjunct2, rule_format, OF mc] o
  have b: "set (classList (node (seg 1 1 2 ''bc'' []))) \<subseteq> tagsAt oneSegment 1"
    by simp
  from h d c a b show ?thesis by simp
qed

end
